theory Spec2Isabelle
  imports Main "HOL-Library.AList" "HOL-Library.FSet"
begin

section \<open>Python floats\<close>

text \<open>
  PageRank values are Python floats: IEEE-754 binary64 numbers. Every finite float is a
  rational, so a float is modelled by the rational it denotes and each arithmetic
  operation is the exact operation followed by rounding to the nearest number with a
  53-bit significand, ties to the even significand. The exponent range is not bounded:
  overflow to infinity and gradual underflow are not modelled, so the model agrees with
  binary64 on every result whose magnitude lies in the normal range.
\<close>

definition round_half_even :: "rat \<Rightarrow> int" where
  "round_half_even m =
     (let f = \<lfloor>m\<rfloor>; r = m - of_int f
      in if r < 1 / 2 then f
         else if 1 / 2 < r then f + 1
         else if even f then f else f + 1)"

text \<open>
  The spacing of the floats around a positive \<open>a\<close> is the power of two \<open>q\<close> with
  \<open>2 ^ 52 \<le> a / q < 2 ^ 53\<close>; it is found by halving or doubling from 1.
\<close>

function norm_down :: "rat \<Rightarrow> rat \<Rightarrow> rat" where
  "norm_down a q =
     (if 0 < a \<and> 0 < q \<and> a / q < 2 ^ 52 then norm_down a (q / 2) else q)"
  by pat_completeness auto
termination
proof (relation "measure (\<lambda>(a, q). nat \<lfloor>2 ^ 52 * q / a\<rfloor>)")
  show "wf (measure (\<lambda>(a, q). nat \<lfloor>2 ^ 52 * q / a\<rfloor>))"
    by (rule wf_measure)
next
  fix a q :: rat
  assume h: "0 < a \<and> 0 < q \<and> a / q < 2 ^ 52"
  define y where "y = 2 ^ 52 * q / a"
  from h have a: "0 < a" and q: "0 < q" and c: "a / q < 2 ^ 52" by blast+
  have "a < 2 ^ 52 * q" using q c by (simp add: pos_divide_less_eq)
  then have y1: "1 \<le> y" using a by (simp add: y_def pos_le_divide_eq)
  have "rat_of_int (2 * \<lfloor>y / 2\<rfloor>) \<le> y"
    using of_int_floor_le[of "y / 2"] by simp
  then have "2 * \<lfloor>y / 2\<rfloor> \<le> \<lfloor>y\<rfloor>"
    by (simp only: le_floor_iff)
  moreover have "1 \<le> \<lfloor>y\<rfloor>"
    using y1 by (simp add: le_floor_iff)
  ultimately have "nat \<lfloor>y / 2\<rfloor> < nat \<lfloor>y\<rfloor>" by linarith
  moreover have "2 ^ 52 * (q / 2) / a = y / 2" by (simp add: y_def)
  ultimately have "nat \<lfloor>2 ^ 52 * (q / 2) / a\<rfloor> < nat \<lfloor>2 ^ 52 * q / a\<rfloor>"
    by (simp only: y_def)
  then show "((a, q / 2), (a, q)) \<in> measure (\<lambda>(a, q). nat \<lfloor>2 ^ 52 * q / a\<rfloor>)"
    by (simp only: in_measure prod.case)
qed

function norm_up :: "rat \<Rightarrow> rat \<Rightarrow> rat" where
  "norm_up a q =
     (if 0 < a \<and> 0 < q \<and> 2 ^ 53 \<le> a / q then norm_up a (2 * q) else q)"
  by pat_completeness auto
termination
proof (relation "measure (\<lambda>(a, q). nat \<lfloor>a / (2 ^ 53 * q)\<rfloor>)")
  show "wf (measure (\<lambda>(a, q). nat \<lfloor>a / (2 ^ 53 * q)\<rfloor>))"
    by (rule wf_measure)
next
  fix a q :: rat
  assume h: "0 < a \<and> 0 < q \<and> 2 ^ 53 \<le> a / q"
  define y where "y = a / (2 ^ 53 * q)"
  from h have a: "0 < a" and q: "0 < q" and c: "2 ^ 53 \<le> a / q" by blast+
  have "2 ^ 53 * q \<le> a" using q c by (simp add: pos_le_divide_eq)
  moreover have "0 < 2 ^ 53 * q" using q by simp
  ultimately have y1: "1 \<le> y" unfolding y_def by (simp only: pos_le_divide_eq mult_1)
  have "rat_of_int (2 * \<lfloor>y / 2\<rfloor>) \<le> y"
    using of_int_floor_le[of "y / 2"] by simp
  then have "2 * \<lfloor>y / 2\<rfloor> \<le> \<lfloor>y\<rfloor>"
    by (simp only: le_floor_iff)
  moreover have "1 \<le> \<lfloor>y\<rfloor>"
    using y1 by (simp add: le_floor_iff)
  ultimately have "nat \<lfloor>y / 2\<rfloor> < nat \<lfloor>y\<rfloor>" by linarith
  moreover have "a / (2 ^ 53 * (2 * q)) = y / 2" by (simp add: y_def)
  ultimately have "nat \<lfloor>a / (2 ^ 53 * (2 * q))\<rfloor> < nat \<lfloor>a / (2 ^ 53 * q)\<rfloor>"
    by (simp only: y_def)
  then show "((a, 2 * q), (a, q)) \<in> measure (\<lambda>(a, q). nat \<lfloor>a / (2 ^ 53 * q)\<rfloor>)"
    by (simp only: in_measure prod.case)
qed

declare norm_down.simps [simp del]
declare norm_up.simps [simp del]

definition quantum :: "rat \<Rightarrow> rat" where
  "quantum a = (if a < 2 ^ 52 then norm_down a 1 else norm_up a 1)"

definition round64 :: "rat \<Rightarrow> rat" where
  "round64 x =
     (if x = 0 then 0
      else let q = quantum \<bar>x\<bar>
           in sgn x * of_int (round_half_even (\<bar>x\<bar> / q)) * q)"

text \<open>
  The float operations of the source: \<open>+\<close>, \<open>-\<close>, \<open>*\<close> and \<open>/\<close> on floats, the
  conversion of an \<open>int\<close> operand to a float, and \<open>/\<close> between two \<open>int\<close>s, which
  Python rounds once from the exact quotient.
\<close>

definition fadd :: "rat \<Rightarrow> rat \<Rightarrow> rat" where
  "fadd x y = round64 (x + y)"

definition fsub :: "rat \<Rightarrow> rat \<Rightarrow> rat" where
  "fsub x y = round64 (x - y)"

definition fmul :: "rat \<Rightarrow> rat \<Rightarrow> rat" where
  "fmul x y = round64 (x * y)"

definition fdiv :: "rat \<Rightarrow> rat \<Rightarrow> rat" where
  "fdiv x y = round64 (x / y)"

definition float_of_nat :: "nat \<Rightarrow> rat" where
  "float_of_nat n = round64 (of_nat n)"

definition int_truediv :: "int \<Rightarrow> int \<Rightarrow> rat" where
  "int_truediv a b = round64 (of_int a / of_int b)"

text \<open>The unit roundoff of binary64.\<close>

definition unit_roundoff :: rat where
  "unit_roundoff = 1 / 2 ^ 53"

text \<open>
  Two numbers are compared up to rounding: \<open>within k x e\<close> says that \<open>x\<close> and \<open>e\<close>
  differ by at most the factor \<open>rho ^ k\<close>, where one rounding of a non-negative number
  changes it by at most the factor \<open>rho\<close>.
\<close>

definition rho :: rat where
  "rho = (1 + unit_roundoff) / (1 - unit_roundoff)"

definition within :: "nat \<Rightarrow> rat \<Rightarrow> rat \<Rightarrow> bool" where
  "within k x e \<longleftrightarrow> e \<le> x * rho ^ k \<and> x \<le> e * rho ^ k"

section \<open>Data model\<close>

text \<open>
  The exceptions the functions can raise. The source defines none of its own: these
  are the built-in ones raised by a missing dictionary key, by \<open>random.choice\<close> on an
  empty sequence, and by a division by zero.
\<close>

datatype error = KeyError | IndexError | ZeroDivisionError

text \<open>
  A corpus is a \<open>dict\<close> from a page to the \<open>set\<close> of pages it links to, and a rank
  mapping or a transition distribution is a \<open>dict\<close> from a page to a float. A
  dictionary is an association list in insertion order, which is the order the source's
  \<open>for\<close> loops visit it in; \<open>AList.update\<close> is the assignment \<open>d[k] = v\<close>: it
  replaces the value of a key in place and appends a new key at the end.
\<close>

type_synonym 'p corpus = "('p \<times> 'p fset) list"

type_synonym 'p ranks = "('p \<times> rat) list"

text \<open>A dictionary has no key twice.\<close>

definition is_dict :: "('k \<times> 'v) list \<Rightarrow> bool" where
  "is_dict d = distinct (map fst d)"

text \<open>
  The invariant \<open>crawl\<close> establishes: only links to pages of the corpus are kept.
\<close>

definition links_closed :: "'p corpus \<Rightarrow> bool" where
  "links_closed corpus = list_all (\<lambda>(key, links). fset links \<subseteq> set (map fst corpus)) corpus"

text \<open>The exact sum of the values of a mapping.\<close>

definition tally_sum :: "'p ranks \<Rightarrow> rat" where
  "tally_sum page_ranks = sum_list (map snd page_ranks)"

section \<open>Transition model\<close>

text \<open>
  \<open>corpus[page]\<close> raises \<open>KeyError\<close> for a page that is not a key. Inside either
  loop the corpus has a key, and in the second one \<open>corpus[page]\<close> is not empty, so no
  divisor is zero.
\<close>

definition transition_model :: "'p corpus \<Rightarrow> 'p \<Rightarrow> rat \<Rightarrow> error + 'p ranks" where
  "transition_model corpus page damping_factor =
     (case map_of corpus page of
        None \<Rightarrow> Inl KeyError
      | Some links \<Rightarrow>
          if fcard links = 0 then
            Inr (fold (\<lambda>key distribution.
                    AList.update key (int_truediv 1 (int (length corpus))) distribution)
                  (map fst corpus) [])
          else
            Inr (fold (\<lambda>key distribution.
                    let base = fdiv (fsub 1 damping_factor) (float_of_nat (length corpus))
                    in AList.update key
                         (if key |\<in>| links
                          then fadd base (fdiv damping_factor (float_of_nat (fcard links)))
                          else base)
                         distribution)
                  (map fst corpus) []))"

section \<open>Sampling estimator\<close>

text \<open>
  The random source is a parameter: \<open>rand i\<close> is the outcome of the \<open>i\<close>-th draw, and
  a draw from a sequence returns the element at that index modulo the length.
  \<open>random.choice\<close> raises \<open>IndexError\<close> on an empty sequence. The weights given to
  \<open>random.choices\<close> are the values of a transition distribution, all positive for a
  damping factor strictly between 0 and 1; they change how likely an element is, not
  which elements there are, so a statement proved for every \<open>rand\<close> holds for every
  run of the source.
\<close>

definition random_choice :: "(nat \<Rightarrow> nat) \<Rightarrow> nat \<Rightarrow> 'a list \<Rightarrow> error + 'a" where
  "random_choice rand i xs =
     (if xs = [] then Inl IndexError else Inr (xs ! (rand i mod length xs)))"

definition random_choices :: "(nat \<Rightarrow> nat) \<Rightarrow> nat \<Rightarrow> 'a list \<Rightarrow> rat list \<Rightarrow> error + 'a" where
  "random_choices rand i population weights = random_choice rand i population"

text \<open>
  The loop \<open>for i in range(n)\<close>, with \<open>k\<close> the number of iterations left and \<open>i\<close>
  the number of draws made so far.
\<close>

fun sample_loop ::
  "'p corpus \<Rightarrow> rat \<Rightarrow> rat \<Rightarrow> (nat \<Rightarrow> nat) \<Rightarrow> nat \<Rightarrow> nat \<Rightarrow> 'p \<Rightarrow> 'p ranks \<Rightarrow> error + 'p ranks"
where
  "sample_loop corpus damping_factor step rand i 0 current_page page_ranks = Inr page_ranks"
| "sample_loop corpus damping_factor step rand i (Suc k) current_page page_ranks =
     (case map_of page_ranks current_page of
        None \<Rightarrow> Inl KeyError
      | Some tally \<Rightarrow>
          (case transition_model corpus current_page damping_factor of
             Inl e \<Rightarrow> Inl e
           | Inr transition \<Rightarrow>
               (case random_choices rand (Suc i) (map fst transition) (map snd transition) of
                  Inl e \<Rightarrow> Inl e
                | Inr next_page \<Rightarrow>
                    sample_loop corpus damping_factor step rand (Suc i) k next_page
                      (AList.update current_page (fadd tally step) page_ranks))))"

text \<open>
  The sample count \<open>n\<close> is a Python \<open>int\<close>; \<open>range(n)\<close> is empty for \<open>n \<le> 0\<close> and
  \<open>1 / n\<close> raises \<open>ZeroDivisionError\<close> for \<open>n = 0\<close>. The line the source prints
  before it returns is not part of the model.
\<close>

definition sample_pagerank ::
  "(nat \<Rightarrow> nat) \<Rightarrow> 'p corpus \<Rightarrow> rat \<Rightarrow> int \<Rightarrow> error + 'p ranks"
where
  "sample_pagerank rand corpus damping_factor n =
     (let page_ranks = map (\<lambda>page. (page, 0)) (map fst corpus)
      in case random_choice rand 0 (map fst corpus) of
           Inl e \<Rightarrow> Inl e
         | Inr current_page \<Rightarrow>
             if n = 0 then Inl ZeroDivisionError
             else sample_loop corpus damping_factor (int_truediv 1 n) rand 0 (nat n)
                    current_page page_ranks)"

section \<open>Iterative estimator\<close>

definition get_links :: "'p \<Rightarrow> 'p corpus \<Rightarrow> 'p list" where
  "get_links page corpus = map fst (filter (\<lambda>(key, links). page |\<in>| links) corpus)"

text \<open>The loop \<open>for link in links\<close>, which adds one term to \<open>new_page_rank\<close> per link.\<close>

fun add_links :: "'p corpus \<Rightarrow> rat \<Rightarrow> 'p ranks \<Rightarrow> 'p list \<Rightarrow> rat \<Rightarrow> error + rat" where
  "add_links corpus damping_factor page_ranks [] new_page_rank = Inr new_page_rank"
| "add_links corpus damping_factor page_ranks (link # links) new_page_rank =
     (case map_of page_ranks link of
        None \<Rightarrow> Inl KeyError
      | Some r \<Rightarrow>
          (case map_of corpus link of
             None \<Rightarrow> Inl KeyError
           | Some out \<Rightarrow>
               if fcard out = 0 then Inl ZeroDivisionError
               else add_links corpus damping_factor page_ranks links
                      (fadd new_page_rank
                         (fmul damping_factor (fdiv r (float_of_nat (fcard out)))))))"

text \<open>The value \<open>new_page_rank\<close> has when the inner loop ends.\<close>

definition new_rank :: "'p corpus \<Rightarrow> rat \<Rightarrow> 'p ranks \<Rightarrow> 'p \<Rightarrow> error + rat" where
  "new_rank corpus damping_factor page_ranks page =
     add_links corpus damping_factor page_ranks (get_links page corpus)
       (fdiv (fsub 1 damping_factor) (float_of_nat (length corpus)))"

text \<open>The float the literal \<open>0.001\<close> denotes.\<close>

definition epsilon :: rat where
  "epsilon = round64 (1 / 1000)"

text \<open>
  The loop \<open>for page in page_ranks\<close>: one sweep over the pages. The state is the flag
  \<open>difference\<close> and the dictionary \<open>page_ranks\<close>, which the loop updates in place; the
  flag is assigned at every page.
\<close>

fun sweep :: "'p corpus \<Rightarrow> rat \<Rightarrow> 'p list \<Rightarrow> bool \<times> 'p ranks \<Rightarrow> error + bool \<times> 'p ranks" where
  "sweep corpus damping_factor [] state = Inr state"
| "sweep corpus damping_factor (page # pages) (difference, page_ranks) =
     (case new_rank corpus damping_factor page_ranks page of
        Inl e \<Rightarrow> Inl e
      | Inr new_page_rank \<Rightarrow>
          (case map_of page_ranks page of
             None \<Rightarrow> Inl KeyError
           | Some old \<Rightarrow>
               sweep corpus damping_factor pages
                 (\<bar>fsub old new_page_rank\<bar> < epsilon,
                  AList.update page new_page_rank page_ranks)))"

text \<open>
  The loop \<open>while not difference\<close>. The flag is \<open>False\<close> whenever a sweep starts. The
  loop has no bound, so the result is an option: \<open>None\<close> when it runs forever. The
  line the source prints before it returns is not part of the model.
\<close>

partial_function (option) iterate_loop ::
  "'p corpus \<Rightarrow> rat \<Rightarrow> 'p ranks \<Rightarrow> (error + 'p ranks) option"
where
  "iterate_loop corpus damping_factor page_ranks =
     (case sweep corpus damping_factor (map fst page_ranks) (False, page_ranks) of
        Inl e \<Rightarrow> Some (Inl e)
      | Inr (difference, page_ranks') \<Rightarrow>
          if difference then Some (Inr page_ranks')
          else iterate_loop corpus damping_factor page_ranks')"

definition iterate_pagerank :: "'p corpus \<Rightarrow> rat \<Rightarrow> (error + 'p ranks) option" where
  "iterate_pagerank corpus damping_factor =
     iterate_loop corpus damping_factor
       (map (\<lambda>key. (key, int_truediv 1 (int (length corpus)))) (map fst corpus))"

subsection \<open>The double-buffered sweep of the specification\<close>

text \<open>
  The specification asks for a sweep that computes every new rank from the ranks as
  they were when the sweep started (\<open>snapshot\<close>) and commits them to a separate
  buffer. This definition follows the specification, not the source.
\<close>

fun sweep_buffered ::
  "'p corpus \<Rightarrow> rat \<Rightarrow> 'p ranks \<Rightarrow> 'p list \<Rightarrow> bool \<times> 'p ranks \<Rightarrow> error + bool \<times> 'p ranks"
where
  "sweep_buffered corpus damping_factor snapshot [] state = Inr state"
| "sweep_buffered corpus damping_factor snapshot (page # pages) (difference, buffer) =
     (case new_rank corpus damping_factor snapshot page of
        Inl e \<Rightarrow> Inl e
      | Inr new_page_rank \<Rightarrow>
          (case map_of snapshot page of
             None \<Rightarrow> Inl KeyError
           | Some old \<Rightarrow>
               sweep_buffered corpus damping_factor snapshot pages
                 (\<bar>fsub old new_page_rank\<bar> < epsilon,
                  AList.update page new_page_rank buffer)))"

section \<open>Example inputs\<close>

definition always_first :: "nat \<Rightarrow> nat" where
  "always_first i = 0"

definition single_page :: "string corpus" where
  "single_page = [(''A'', {||})]"

definition sink_pair :: "string corpus" where
  "sink_pair = [(''A'', {|''B''|}), (''B'', {||})]"

definition four_pages :: "string corpus" where
  "four_pages =
     [(''A'', {|''B''|}), (''B'', {|''A''|}), (''C'', {|''A''|}), (''D'', {|''A''|})]"

text \<open>
  The float \<open>0.9999999999999999\<close>, the largest one below 1, and a corpus in which
  \<open>A\<close>, \<open>C\<close> and \<open>B\<close> link in a circle and \<open>D\<close> links to \<open>A\<close>.
\<close>

definition near_one :: rat where
  "near_one = 9007199254740991 / 9007199254740992"

definition cycle_pages :: "string corpus" where
  "cycle_pages =
     [(''A'', {|''C''|}), (''D'', {|''A''|}), (''B'', {|''A''|}), (''C'', {|''B''|})]"

section \<open>Properties of the float operations\<close>

lemma round_half_even_error: "\<bar>of_int (round_half_even m) - m\<bar> \<le> 1 / 2"
proof -
  have "of_int \<lfloor>m\<rfloor> \<le> m" "m < of_int \<lfloor>m\<rfloor> + 1" by linarith+
  then show ?thesis
    by (auto simp: round_half_even_def Let_def abs_le_iff)
qed

lemma round_half_even_lower: "of_int k \<le> m \<Longrightarrow> k \<le> round_half_even m"
proof -
  assume "of_int k \<le> m"
  then have "k \<le> \<lfloor>m\<rfloor>" by (simp add: le_floor_iff)
  then show ?thesis by (auto simp: round_half_even_def Let_def)
qed

lemma halve_quantum:
  fixes a q c :: rat
  assumes "a / q < c"
  shows "a / (q / 2) < 2 * c"
proof -
  from assms have "2 * (a / q) < 2 * c" by simp
  moreover have "a / (q / 2) = 2 * (a / q)" by simp
  ultimately show ?thesis by (simp only:)
qed

lemma double_quantum:
  fixes a q c :: rat
  assumes "2 * c \<le> a / q"
  shows "c \<le> a / (2 * q)"
proof -
  from assms have "c \<le> (a / q) / 2" by simp
  moreover have "a / (2 * q) = (a / q) / 2" by simp
  ultimately show ?thesis by (simp only:)
qed

lemma norm_down_spec:
  "0 < a \<Longrightarrow> 0 < q \<Longrightarrow> a / q < 2 ^ 53 \<Longrightarrow>
     0 < norm_down a q \<and> 2 ^ 52 \<le> a / norm_down a q \<and> a / norm_down a q < 2 ^ 53"
proof (induction a q rule: norm_down.induct)
  case (1 a q)
  show ?case
  proof (cases "a / q < 2 ^ 52")
    case True
    from halve_quantum[OF True] have "a / (q / 2) < 2 ^ 53" by simp
    with 1 True have "0 < norm_down a (q / 2) \<and> 2 ^ 52 \<le> a / norm_down a (q / 2)
        \<and> a / norm_down a (q / 2) < 2 ^ 53"
      by simp
    moreover have "norm_down a q = norm_down a (q / 2)"
      using 1 True by (subst norm_down.simps) simp
    ultimately show ?thesis by simp
  next
    case False
    then have "norm_down a q = q" by (subst norm_down.simps) simp
    with 1 False show ?thesis by simp
  qed
qed

lemma norm_up_spec:
  "0 < a \<Longrightarrow> 0 < q \<Longrightarrow> 2 ^ 52 \<le> a / q \<Longrightarrow>
     0 < norm_up a q \<and> 2 ^ 52 \<le> a / norm_up a q \<and> a / norm_up a q < 2 ^ 53"
proof (induction a q rule: norm_up.induct)
  case (1 a q)
  show ?case
  proof (cases "2 ^ 53 \<le> a / q")
    case True
    from True have "2 * 2 ^ 52 \<le> a / q" by simp
    from double_quantum[OF this] have "2 ^ 52 \<le> a / (2 * q)" .
    with 1 True have "0 < norm_up a (2 * q) \<and> 2 ^ 52 \<le> a / norm_up a (2 * q)
        \<and> a / norm_up a (2 * q) < 2 ^ 53"
      by simp
    moreover have "norm_up a q = norm_up a (2 * q)"
      using 1 True by (subst norm_up.simps) simp
    ultimately show ?thesis by simp
  next
    case False
    then have "norm_up a q = q" by (subst norm_up.simps) simp
    with 1 False show ?thesis by simp
  qed
qed

lemma quantum_spec:
  assumes "0 < a"
  shows "0 < quantum a \<and> 2 ^ 52 \<le> a / quantum a \<and> a / quantum a < 2 ^ 53"
proof (cases "a < 2 ^ 52")
  case True
  then have "a / 1 < 2 ^ 53" by simp
  from norm_down_spec[OF assms _ this] True show ?thesis by (simp add: quantum_def)
next
  case False
  then have "2 ^ 52 \<le> a / 1" by simp
  from norm_up_spec[OF assms _ this] False show ?thesis by (simp add: quantum_def)
qed

lemma round64_pos_error:
  assumes "0 < x"
  shows "\<bar>round64 x - x\<bar> \<le> x * unit_roundoff"
proof -
  define q where "q = quantum x"
  define m where "m = x / q"
  from quantum_spec[OF assms] have q: "0 < q" and lo: "2 ^ 52 \<le> m"
    by (simp_all add: q_def m_def)
  have x: "x = m * q" using q by (simp add: m_def)
  have r: "round64 x = of_int (round_half_even m) * q"
    using assms by (simp add: round64_def Let_def q_def m_def)
  have "round64 x - x = of_int (round_half_even m) * q - m * q"
    using r x by simp
  also have "\<dots> = (of_int (round_half_even m) - m) * q"
    by (simp add: left_diff_distrib)
  finally have "\<bar>round64 x - x\<bar> = \<bar>of_int (round_half_even m) - m\<bar> * q"
    using q by (simp add: abs_mult)
  also have "\<dots> \<le> 1 / 2 * q"
    using round_half_even_error[of m] q by (intro mult_right_mono) simp_all
  also have "\<dots> \<le> m * q * unit_roundoff"
  proof -
    have "1 / 2 \<le> m * unit_roundoff" using lo by (simp add: unit_roundoff_def)
    then have "1 / 2 * q \<le> (m * unit_roundoff) * q" using q by (intro mult_right_mono) simp_all
    then show ?thesis by (simp add: mult_ac)
  qed
  finally show ?thesis by (simp add: x)
qed

lemma round64_bounds:
  assumes "0 \<le> x"
  shows "x * (1 - unit_roundoff) \<le> round64 x" and "round64 x \<le> x * (1 + unit_roundoff)"
proof -
  have "x * (1 - unit_roundoff) \<le> round64 x \<and> round64 x \<le> x * (1 + unit_roundoff)"
  proof (cases "x = 0")
    case True
    then show ?thesis by (simp add: round64_def)
  next
    case False
    with assms have "0 < x" by simp
    from round64_pos_error[OF this] show ?thesis
      by (simp add: abs_le_iff algebra_simps)
  qed
  then show "x * (1 - unit_roundoff) \<le> round64 x" and "round64 x \<le> x * (1 + unit_roundoff)"
    by simp_all
qed

lemma unit_roundoff_range: "0 < unit_roundoff" "unit_roundoff < 1"
  by (simp_all add: unit_roundoff_def)

lemma round64_pos: "0 < x \<Longrightarrow> 0 < round64 x"
proof -
  assume x: "0 < x"
  then have "0 < x * (1 - unit_roundoff)" using unit_roundoff_range by simp
  also have "\<dots> \<le> round64 x" using round64_bounds(1)[of x] x by simp
  finally show ?thesis .
qed

lemma round64_nonneg: "0 \<le> x \<Longrightarrow> 0 \<le> round64 x"
  using round64_pos[of x] by (cases "x = 0") (simp_all add: round64_def)

text \<open>Rules that evaluate the float operations on numerals.\<close>

lemma floor_rat_numeral_div:
  "\<lfloor>numeral a / numeral b :: rat\<rfloor> = numeral a div numeral b"
  using floor_divide_of_int_eq[of "numeral a" "numeral b", where ?'a = rat] by simp

lemmas float_eval = round64_def quantum_def round_half_even_def Let_def
  fadd_def fsub_def fmul_def fdiv_def float_of_nat_def int_truediv_def
  fcard_finsert_if fcard_fempty floor_rat_numeral_div norm_down.simps norm_up.simps

section \<open>Properties of the transition model\<close>

lemma map_of_fold_update:
  "map_of (fold (\<lambda>key dist. AList.update key (f key) dist) keys acc) k =
     (if k \<in> set keys then Some (f k) else map_of acc k)"
  by (induction keys arbitrary: acc) (auto simp: update_conv')

lemma keys_fold_update:
  "fst ` set (fold (\<lambda>key dist. AList.update key (f key) dist) keys acc) =
     fst ` set acc \<union> set keys"
proof (induction keys arbitrary: acc)
  case Nil
  show ?case by simp
next
  case (Cons k keys)
  have "set (map fst (AList.update k (f k) acc)) = insert k (set (map fst acc))"
    by (auto simp: update_keys)
  then have "fst ` set (AList.update k (f k) acc) = insert k (fst ` set acc)"
    by simp
  with Cons show ?case by simp
qed

lemma keys_fold_update_const:
  "fst ` set (fold (\<lambda>key. AList.update key c) keys acc) = fst ` set acc \<union> set keys"
  using keys_fold_update[of "\<lambda>_. c" keys acc] by simp

lemma transition_model_keys:
  assumes "transition_model corpus page d = Inr dist"
  shows "fst ` set dist = fst ` set corpus"
proof (cases "map_of corpus page")
  case None
  with assms show ?thesis by (simp add: transition_model_def)
next
  case (Some links)
  show ?thesis
  proof (cases "fcard links = 0")
    case True
    with assms Some have "dist = fold (\<lambda>key. AList.update key (int_truediv 1 (int (length corpus))))
        (map fst corpus) []"
      by (simp add: transition_model_def)
    then show ?thesis by (simp add: keys_fold_update_const)
  next
    case False
    define g where "g = (\<lambda>key. if key |\<in>| links
        then fadd (fdiv (fsub 1 d) (float_of_nat (length corpus)))
               (fdiv d (float_of_nat (fcard links)))
        else fdiv (fsub 1 d) (float_of_nat (length corpus)))"
    from assms Some False
    have "dist = fold (\<lambda>key. AList.update key (g key)) (map fst corpus) []"
      by (simp add: transition_model_def Let_def g_def)
    then show ?thesis by (simp add: keys_fold_update)
  qed
qed

lemma transition_model_lookup:
  assumes "map_of corpus page = Some links" and "key \<in> set (map fst corpus)"
  shows "\<exists>dist. transition_model corpus page d = Inr dist \<and>
           map_of dist key =
             Some (if links = {||} then int_truediv 1 (int (length corpus))
                   else if key |\<in>| links
                        then fadd (fdiv (fsub 1 d) (float_of_nat (length corpus)))
                                  (fdiv d (float_of_nat (fcard links)))
                        else fdiv (fsub 1 d) (float_of_nat (length corpus)))"
  using assms by (auto simp: transition_model_def map_of_fold_update Let_def)

text \<open>
  C4. For a page \<open>page\<close> of the corpus with outbound links \<open>links\<close> and every page
  \<open>key\<close> of the corpus, \<open>transition_model\<close> returns a distribution that gives \<open>key\<close>
  the float \<open>1 / N\<close> when \<open>page\<close> has no outbound links, and otherwise the float
  \<open>(1 - d) / N\<close>, plus the float \<open>d / L\<close> when \<open>key\<close> is among the links, where \<open>N\<close>
  is the number of pages and \<open>L\<close> the number of links. The operations are those of
  float arithmetic, as the source computes them.
\<close>

theorem transition_model_values:
  assumes "map_of corpus page = Some links" and "key \<in> set (map fst corpus)"
  shows "\<exists>dist. transition_model corpus page d = Inr dist \<and>
           map_of dist key =
             Some (if links = {||} then int_truediv 1 (int (length corpus))
                   else if key |\<in>| links
                        then fadd (fdiv (fsub 1 d) (float_of_nat (length corpus)))
                                  (fdiv d (float_of_nat (fcard links)))
                        else fdiv (fsub 1 d) (float_of_nat (length corpus)))"
  using assms by (rule transition_model_lookup)

theorem transition_model_values_witness:
  "map_of four_pages ''A'' = Some {|''B''|} \<and> ''B'' \<in> set (map fst four_pages) \<and>
   (\<exists>dist. transition_model four_pages ''A'' (1 / 2) = Inr dist \<and>
      map_of dist ''B'' =
        Some (fadd (fdiv (fsub 1 (1 / 2)) (float_of_nat (length four_pages)))
                (fdiv (1 / 2) (float_of_nat (fcard {|''B''|})))))"
proof -
  have h1: "map_of four_pages ''A'' = Some {|''B''|}" by (simp add: four_pages_def)
  have h2: "''B'' \<in> set (map fst four_pages)" by (simp add: four_pages_def)
  from transition_model_values[OF h1 h2, of "1 / 2"] h1 h2 show ?thesis by simp
qed

text \<open>
  C8. On a page with no outbound links the distribution returned by
  \<open>transition_model\<close> does not depend on the damping factor.
\<close>

theorem transition_model_sink_ignores_damping:
  "map_of corpus page = Some {||} \<Longrightarrow>
     transition_model corpus page d1 = transition_model corpus page d2"
  by (simp add: transition_model_def)

theorem transition_model_sink_ignores_damping_witness:
  "map_of single_page ''A'' = Some {||} \<and>
   transition_model single_page ''A'' (1 / 4) = transition_model single_page ''A'' (3 / 4)"
proof -
  have h: "map_of single_page ''A'' = Some {||}" by (simp add: single_page_def)
  from transition_model_sink_ignores_damping[OF h, of "1 / 4" "3 / 4"] h show ?thesis by simp
qed

lemma int_truediv_pos: "0 < a \<Longrightarrow> 0 < b \<Longrightarrow> 0 < int_truediv a b"
  by (simp add: int_truediv_def round64_pos)

lemma float_of_nat_pos: "0 < n \<Longrightarrow> 0 < float_of_nat n"
  by (simp add: float_of_nat_def round64_pos)

lemma base_pos:
  assumes "d < 1" "0 < n"
  shows "0 < fdiv (fsub 1 d) (float_of_nat n)"
proof -
  have "0 < fsub 1 d" using assms by (simp add: fsub_def round64_pos)
  with float_of_nat_pos[OF assms(2)] show ?thesis by (simp add: fdiv_def round64_pos)
qed

text \<open>
  C10. For a page of the corpus, a damping factor strictly between 0 and 1 and every
  page \<open>key\<close> of the corpus, \<open>transition_model\<close> gives \<open>key\<close> a strictly positive
  probability.
\<close>

theorem transition_model_positive:
  assumes "map_of corpus page = Some links" and "key \<in> set (map fst corpus)"
    and "0 < d" and "d < 1"
  shows "\<exists>dist p. transition_model corpus page d = Inr dist \<and> map_of dist key = Some p \<and> 0 < p"
proof -
  from assms(2) have n: "0 < length corpus" by (cases corpus) auto
  have l: "0 < fcard links" if "links \<noteq> {||}"
    using that by (metis fcard_0_eq gr0I)
  have 1: "0 < int_truediv 1 (int (length corpus))" using n by (simp add: int_truediv_pos)
  have 2: "0 < fdiv (fsub 1 d) (float_of_nat (length corpus))" using base_pos assms(4) n by blast
  have 3: "0 < fadd (fdiv (fsub 1 d) (float_of_nat (length corpus)))
                 (fdiv d (float_of_nat (fcard links)))" if "links \<noteq> {||}"
  proof -
    have "0 < fdiv d (float_of_nat (fcard links))"
      using assms(3) float_of_nat_pos[OF l[OF that]] by (simp add: fdiv_def round64_pos)
    with 2 show ?thesis by (simp add: fadd_def round64_pos)
  qed
  from transition_model_lookup[OF assms(1,2), of d] 1 2 3 show ?thesis
    by (auto split: if_splits)
qed

theorem transition_model_positive_witness:
  "map_of four_pages ''A'' = Some {|''B''|} \<and> ''C'' \<in> set (map fst four_pages) \<and>
   (0 :: rat) < 1 / 2 \<and> (1 / 2 :: rat) < 1 \<and>
   (\<exists>dist p. transition_model four_pages ''A'' (1 / 2) = Inr dist \<and>
      map_of dist ''C'' = Some p \<and> 0 < p)"
proof -
  have h1: "map_of four_pages ''A'' = Some {|''B''|}" by (simp add: four_pages_def)
  have h2: "''C'' \<in> set (map fst four_pages)" by (simp add: four_pages_def)
  have h3: "(0 :: rat) < 1 / 2" and h4: "(1 / 2 :: rat) < 1" by simp_all
  from transition_model_positive[OF h1 h2 h3 h4] h1 h2 h3 h4 show ?thesis by blast
qed

section \<open>Evaluation on the example inputs\<close>

lemma transition_four_pages:
  "transition_model four_pages ''A'' (1 / 2) =
     Inr [(''A'', 1 / 8), (''B'', 5 / 8), (''C'', 1 / 8), (''D'', 1 / 8)]"
  by (simp add: four_pages_def transition_model_def float_eval)

lemma sample_loop_numeral:
  "sample_loop corpus d step rand i (numeral v) current page_ranks =
     (case map_of page_ranks current of
        None \<Rightarrow> Inl KeyError
      | Some tally \<Rightarrow>
          (case transition_model corpus current d of
             Inl e \<Rightarrow> Inl e
           | Inr transition \<Rightarrow>
               (case random_choices rand (Suc i) (map fst transition) (map snd transition) of
                  Inl e \<Rightarrow> Inl e
                | Inr next_page \<Rightarrow>
                    sample_loop corpus d step rand (Suc i) (pred_numeral v) next_page
                      (AList.update current (fadd tally step) page_ranks))))"
  by (simp only: numeral_eq_Suc sample_loop.simps)

lemma sample_loop_one:
  "sample_loop corpus d step rand i 1 current page_ranks =
     sample_loop corpus d step rand i (Suc 0) current page_ranks"
  by (simp only: One_nat_def)

lemma sample_four_pages:
  "sample_pagerank always_first four_pages (1 / 2) 2 =
     Inr [(''A'', 1), (''B'', 0), (''C'', 0), (''D'', 0)]"
  by (simp add: sample_pagerank_def random_choice_def random_choices_def always_first_def
      four_pages_def transition_model_def float_eval sample_loop_numeral sample_loop_one)

lemma sample_single_page:
  "sample_pagerank always_first single_page (1 / 2) 10 =
     Inr [(''A'', 9007199254740991 / 9007199254740992)]"
  by (simp add: sample_pagerank_def random_choice_def random_choices_def always_first_def
      single_page_def transition_model_def float_eval sample_loop_numeral sample_loop_one)

lemma first_sweep_four_pages:
  "sweep four_pages (1 / 2) (map fst four_pages)
     (False, [(''A'', 1 / 4), (''B'', 1 / 4), (''C'', 1 / 4), (''D'', 1 / 4)]) =
   Inr (False, [(''A'', 1 / 2), (''B'', 3 / 8), (''C'', 1 / 8), (''D'', 1 / 8)])"
  by (simp add: four_pages_def new_rank_def get_links_def epsilon_def float_eval)

lemma second_sweep_four_pages:
  "sweep four_pages (1 / 2) (map fst four_pages)
     (False, [(''A'', 1 / 2), (''B'', 3 / 8), (''C'', 1 / 8), (''D'', 1 / 8)]) =
   Inr (True, [(''A'', 7 / 16), (''B'', 11 / 32), (''C'', 1 / 8), (''D'', 1 / 8)])"
  by (simp add: four_pages_def new_rank_def get_links_def epsilon_def float_eval)

lemma initial_four_pages:
  "map (\<lambda>key. (key, int_truediv 1 (int (length four_pages)))) (map fst four_pages) =
     [(''A'', 1 / 4), (''B'', 1 / 4), (''C'', 1 / 4), (''D'', 1 / 4)]"
  by (simp add: four_pages_def float_eval)

lemma keys_four_pages: "map fst four_pages = [''A'', ''B'', ''C'', ''D'']"
  by (simp add: four_pages_def)

lemma iterate_four_pages:
  "iterate_pagerank four_pages (1 / 2) =
     Some (Inr [(''A'', 7 / 16), (''B'', 11 / 32), (''C'', 1 / 8), (''D'', 1 / 8)])"
proof -
  have "iterate_pagerank four_pages (1 / 2) =
      iterate_loop four_pages (1 / 2) [(''A'', 1 / 4), (''B'', 1 / 4), (''C'', 1 / 4), (''D'', 1 / 4)]"
    by (simp only: iterate_pagerank_def initial_four_pages)
  also have "\<dots> =
      iterate_loop four_pages (1 / 2) [(''A'', 1 / 2), (''B'', 3 / 8), (''C'', 1 / 8), (''D'', 1 / 8)]"
    using first_sweep_four_pages by (subst iterate_loop.simps) (simp add: keys_four_pages)
  also have "\<dots> = Some (Inr [(''A'', 7 / 16), (''B'', 11 / 32), (''C'', 1 / 8), (''D'', 1 / 8)])"
    using second_sweep_four_pages by (subst iterate_loop.simps) (simp add: keys_four_pages)
  finally show ?thesis .
qed

lemma near_one_float: "round64 near_one = near_one"
  by (simp add: near_one_def float_eval)

lemma initial_cycle_pages:
  "map (\<lambda>key. (key, int_truediv 1 (int (length cycle_pages)))) (map fst cycle_pages) =
     [(''A'', 1 / 4), (''D'', 1 / 4), (''B'', 1 / 4), (''C'', 1 / 4)]"
  by (simp add: cycle_pages_def float_eval)

lemma first_sweep_cycle_pages:
  "sweep cycle_pages near_one [''A'', ''D'', ''B'', ''C'']
     (False, [(''A'', 1 / 4), (''D'', 1 / 4), (''B'', 1 / 4), (''C'', 1 / 4)]) =
   Inr (False, [(''A'', 1 / 2), (''D'', 1 / 36028797018963968), (''B'', 1 / 4), (''C'', 1 / 2)])"
  by (simp add: cycle_pages_def near_one_def new_rank_def get_links_def epsilon_def float_eval)

lemma odd_sweep_cycle_pages:
  "sweep cycle_pages near_one [''A'', ''D'', ''B'', ''C'']
     (False, [(''A'', 1 / 2), (''D'', 1 / 36028797018963968), (''B'', 1 / 4), (''C'', 1 / 2)]) =
   Inr (False, [(''A'', 1 / 4), (''D'', 1 / 36028797018963968), (''B'', 1 / 2), (''C'', 1 / 4)])"
  by (simp add: cycle_pages_def near_one_def new_rank_def get_links_def epsilon_def float_eval)

lemma even_sweep_cycle_pages:
  "sweep cycle_pages near_one [''A'', ''D'', ''B'', ''C'']
     (False, [(''A'', 1 / 4), (''D'', 1 / 36028797018963968), (''B'', 1 / 2), (''C'', 1 / 4)]) =
   Inr (False, [(''A'', 1 / 2), (''D'', 1 / 36028797018963968), (''B'', 1 / 4), (''C'', 1 / 2)])"
  by (simp add: cycle_pages_def near_one_def new_rank_def get_links_def epsilon_def float_eval)

lemma iterate_loop_cycle_pages:
  assumes m: "iterate_loop corpus d page_ranks = Some res"
  shows "\<not> (corpus = cycle_pages \<and> d = near_one \<and>
      (page_ranks = [(''A'', 1 / 2), (''D'', 1 / 36028797018963968), (''B'', 1 / 4), (''C'', 1 / 2)] \<or>
       page_ranks = [(''A'', 1 / 4), (''D'', 1 / 36028797018963968), (''B'', 1 / 2), (''C'', 1 / 4)]))"
proof (rule iterate_loop.raw_induct
    [where P = "\<lambda>corpus d page_ranks res. \<not> (corpus = cycle_pages \<and> d = near_one \<and>
      (page_ranks = [(''A'', 1 / 2), (''D'', 1 / 36028797018963968), (''B'', 1 / 4), (''C'', 1 / 2)] \<or>
       page_ranks = [(''A'', 1 / 4), (''D'', 1 / 36028797018963968), (''B'', 1 / 2), (''C'', 1 / 4)]))",
      OF _ m],
    goal_cases)
  case (1 loop corpus d page_ranks res)
  show ?case
  proof
    assume a: "corpus = cycle_pages \<and> d = near_one \<and>
      (page_ranks = [(''A'', 1 / 2), (''D'', 1 / 36028797018963968), (''B'', 1 / 4), (''C'', 1 / 2)] \<or>
       page_ranks = [(''A'', 1 / 4), (''D'', 1 / 36028797018963968), (''B'', 1 / 2), (''C'', 1 / 4)])"
    then consider
      (odd) "page_ranks = [(''A'', 1 / 2), (''D'', 1 / 36028797018963968), (''B'', 1 / 4), (''C'', 1 / 2)]"
      | (even) "page_ranks = [(''A'', 1 / 4), (''D'', 1 / 36028797018963968), (''B'', 1 / 2), (''C'', 1 / 4)]"
      by blast
    then show False
    proof cases
      case odd
      with 1(2) a odd_sweep_cycle_pages
      have "loop cycle_pages near_one
          [(''A'', 1 / 4), (''D'', 1 / 36028797018963968), (''B'', 1 / 2), (''C'', 1 / 4)] = Some res"
        by simp
      from 1(1)[OF this] show False by simp
    next
      case even
      with 1(2) a even_sweep_cycle_pages
      have "loop cycle_pages near_one
          [(''A'', 1 / 2), (''D'', 1 / 36028797018963968), (''B'', 1 / 4), (''C'', 1 / 2)] = Some res"
        by simp
      from 1(1)[OF this] show False by simp
    qed
  qed
qed

section \<open>Keys of the returned mappings\<close>

lemma update_present_keys:
  "map_of al k = Some v \<Longrightarrow> map fst (AList.update k w al) = map fst al"
  by (simp add: update_keys map_of_eq_None_iff[symmetric] del: map_of_eq_None_iff)

lemma sample_loop_keys:
  "sample_loop corpus d step rand i k current page_ranks = Inr result \<Longrightarrow>
     map fst result = map fst page_ranks"
proof (induction k arbitrary: i current page_ranks)
  case 0
  then show ?case by simp
next
  case (Suc k)
  from Suc.prems obtain tally transition next_page where
    t: "map_of page_ranks current = Some tally" and
    r: "sample_loop corpus d step rand (Suc i) k next_page
          (AList.update current (fadd tally step) page_ranks) = Inr result"
    by (auto split: option.splits sum.splits)
  from Suc.IH[OF r] update_present_keys[OF t] show ?case by simp
qed

lemma sample_pagerank_keys:
  assumes "sample_pagerank rand corpus d n = Inr result"
  shows "map fst result = map fst corpus"
proof -
  from assms obtain current where
    "sample_loop corpus d (int_truediv 1 n) rand 0 (nat n) current
       (map (\<lambda>page. (page, 0)) (map fst corpus)) = Inr result"
    by (auto simp: sample_pagerank_def Let_def split: sum.splits if_splits)
  from sample_loop_keys[OF this] show ?thesis by (simp add: comp_def)
qed

lemma sweep_keys:
  "sweep corpus d pages (flag, page_ranks) = Inr (flag', result) \<Longrightarrow>
     map fst result = map fst page_ranks"
proof (induction pages arbitrary: flag page_ranks)
  case Nil
  then show ?case by simp
next
  case (Cons page pages)
  from Cons.prems obtain npr old where
    o: "map_of page_ranks page = Some old" and
    r: "sweep corpus d pages (\<bar>fsub old npr\<bar> < epsilon, AList.update page npr page_ranks)
          = Inr (flag', result)"
    by (auto split: option.splits sum.splits)
  from Cons.IH[OF r] update_present_keys[OF o] show ?case by simp
qed

lemma iterate_loop_keys:
  assumes m: "iterate_loop corpus d page_ranks = Some res"
  shows "\<forall>result. res = Inr result \<longrightarrow> map fst result = map fst page_ranks"
proof (rule iterate_loop.raw_induct
    [where P = "\<lambda>corpus d page_ranks res.
       \<forall>result. res = Inr result \<longrightarrow> map fst result = map fst page_ranks", OF _ m],
    goal_cases)
  case (1 loop corpus d page_ranks res)
  show ?case
  proof (cases "sweep corpus d (map fst page_ranks) (False, page_ranks)")
    case (Inl e)
    with 1(2) show ?thesis by auto
  next
    case (Inr st)
    obtain flag ranks' where st: "st = (flag, ranks')" by (cases st)
    from sweep_keys Inr st have k: "map fst ranks' = map fst page_ranks" by metis
    show ?thesis
    proof (cases flag)
      case True
      with 1(2) Inr st k show ?thesis by auto
    next
      case False
      with 1(2) Inr st have "loop corpus d ranks' = Some res" by simp
      from 1(1)[OF this] k show ?thesis by simp
    qed
  qed
qed

lemma iterate_pagerank_keys:
  assumes "iterate_pagerank corpus d = Some (Inr result)"
  shows "map fst result = map fst corpus"
  using iterate_loop_keys[OF assms[unfolded iterate_pagerank_def]] by (simp add: comp_def)

lemma transition_model_returns:
  assumes "current \<in> fst ` set corpus"
  shows "\<exists>transition. transition_model corpus current d = Inr transition"
proof -
  from assms obtain links where "map_of corpus current = Some links"
    by (metis map_of_eq_None_iff not_Some_eq)
  then show ?thesis by (simp add: transition_model_def)
qed

lemma random_choice_member:
  assumes "xs \<noteq> []"
  shows "\<exists>x. random_choice rand i xs = Inr x \<and> x \<in> set xs"
  using assms by (simp add: random_choice_def)

lemma sample_loop_returns:
  assumes "current \<in> fst ` set corpus" and "fst ` set page_ranks = fst ` set corpus"
  shows "\<exists>result. sample_loop corpus d s rand i k current page_ranks = Inr result"
  using assms
proof (induction k arbitrary: i current page_ranks)
  case 0
  show ?case by simp
next
  case (Suc k)
  from Suc.prems obtain tally where t: "map_of page_ranks current = Some tally"
    by (metis map_of_eq_None_iff not_Some_eq)
  from transition_model_returns[OF Suc.prems(1)] obtain transition where
    tr: "transition_model corpus current d = Inr transition" by blast
  from transition_model_keys[OF tr] have keys: "set (map fst transition) = fst ` set corpus"
    by simp
  with Suc.prems(1) have "map fst transition \<noteq> []" by auto
  from random_choice_member[OF this] obtain next_page where
    n: "random_choices rand (Suc i) (map fst transition) (map snd transition) = Inr next_page"
    and nm: "next_page \<in> set (map fst transition)"
    unfolding random_choices_def by blast
  from nm keys have 1: "next_page \<in> fst ` set corpus" by simp
  have "map fst (AList.update current (fadd tally s) page_ranks) = map fst page_ranks"
    using t by (rule update_present_keys)
  then have "set (map fst (AList.update current (fadd tally s) page_ranks)) =
      set (map fst page_ranks)" by simp
  then have 2: "fst ` set (AList.update current (fadd tally s) page_ranks) = fst ` set corpus"
    using Suc.prems(2) by simp
  from Suc.IH[OF 1 2] obtain result where
    "sample_loop corpus d s rand (Suc i) k next_page
       (AList.update current (fadd tally s) page_ranks) = Inr result" by blast
  with t tr n show ?case by simp
qed

lemma get_links_entry:
  assumes "is_dict corpus" and "link \<in> set (get_links page corpus)"
  shows "\<exists>out. map_of corpus link = Some out \<and> page |\<in>| out"
proof -
  from assms(2) obtain out where "(link, out) \<in> set corpus" and p: "page |\<in>| out"
    by (auto simp: get_links_def)
  with assms(1) have "map_of corpus link = Some out" by (simp add: is_dict_def)
  with p show ?thesis by blast
qed

lemma add_links_returns:
  assumes "\<forall>link \<in> set links. link \<in> fst ` set page_ranks \<and>
      (\<exists>out. map_of corpus link = Some out \<and> page |\<in>| out)"
  shows "\<exists>v. add_links corpus d page_ranks links acc = Inr v"
  using assms
proof (induction links arbitrary: acc)
  case Nil
  show ?case by simp
next
  case (Cons link links)
  from Cons.prems obtain r where r: "map_of page_ranks link = Some r"
    by (metis list.set_intros(1) map_of_eq_None_iff not_Some_eq)
  from Cons.prems obtain out where o: "map_of corpus link = Some out" and p: "page |\<in>| out"
    by auto
  from p have c: "fcard out \<noteq> 0" by (metis fcard_0_eq fempty_iff)
  from Cons.IH[of "fadd acc (fmul d (fdiv r (float_of_nat (fcard out))))"] Cons.prems
  obtain v where "add_links corpus d page_ranks links
      (fadd acc (fmul d (fdiv r (float_of_nat (fcard out))))) = Inr v"
    by auto
  with r o c show ?case by simp
qed

lemma new_rank_returns:
  assumes "is_dict corpus" and "fst ` set page_ranks = fst ` set corpus"
  shows "\<exists>v. new_rank corpus d page_ranks page = Inr v"
  unfolding new_rank_def
proof (rule add_links_returns, rule ballI)
  fix link
  assume l: "link \<in> set (get_links page corpus)"
  then have "link \<in> fst ` set corpus" by (auto simp: get_links_def)
  with assms(2) get_links_entry[OF assms(1) l]
  show "link \<in> fst ` set page_ranks \<and> (\<exists>out. map_of corpus link = Some out \<and> page |\<in>| out)"
    by simp
qed

lemma sweep_returns:
  assumes "is_dict corpus"
  shows "fst ` set page_ranks = fst ` set corpus \<Longrightarrow> set pages \<subseteq> fst ` set corpus \<Longrightarrow>
     \<exists>flag' result. sweep corpus d pages (flag, page_ranks) = Inr (flag', result)"
proof (induction pages arbitrary: flag page_ranks)
  case Nil
  show ?case by simp
next
  case (Cons page pages)
  from new_rank_returns[OF assms Cons.prems(1)] obtain v where
    v: "new_rank corpus d page_ranks page = Inr v" by blast
  from Cons.prems obtain old where o: "map_of page_ranks page = Some old"
    by (metis list.set_intros(1) map_of_eq_None_iff not_Some_eq subsetD)
  have "map fst (AList.update page v page_ranks) = map fst page_ranks"
    using o by (rule update_present_keys)
  then have "set (map fst (AList.update page v page_ranks)) = set (map fst page_ranks)" by simp
  then have k: "fst ` set (AList.update page v page_ranks) = fst ` set corpus"
    using Cons.prems(1) by simp
  from Cons.prems(2) have s: "set pages \<subseteq> fst ` set corpus" by simp
  from Cons.IH[OF k s, of "\<bar>fsub old v\<bar> < epsilon"] v o show ?case by simp
qed

lemma iterate_loop_no_error:
  assumes m: "iterate_loop corpus d page_ranks = Some res"
  shows "is_dict corpus \<and> fst ` set page_ranks = fst ` set corpus \<longrightarrow> (\<forall>e. res \<noteq> Inl e)"
proof (rule iterate_loop.raw_induct
    [where P = "\<lambda>corpus d page_ranks res.
       is_dict corpus \<and> fst ` set page_ranks = fst ` set corpus \<longrightarrow> (\<forall>e. res \<noteq> Inl e)", OF _ m],
    goal_cases)
  case (1 loop corpus d page_ranks res)
  show ?case
  proof (intro impI)
    assume a: "is_dict corpus \<and> fst ` set page_ranks = fst ` set corpus"
    then have "set (map fst page_ranks) \<subseteq> fst ` set corpus" by simp
    with a sweep_returns[of corpus page_ranks "map fst page_ranks" d False]
    obtain flag ranks' where
      s: "sweep corpus d (map fst page_ranks) (False, page_ranks) = Inr (flag, ranks')" by blast
    from sweep_keys[OF s] have "set (map fst ranks') = set (map fst page_ranks)" by simp
    with a have k: "fst ` set ranks' = fst ` set corpus" by simp
    show "\<forall>e. res \<noteq> Inl e"
    proof (cases flag)
      case True
      with 1(2) s show ?thesis by auto
    next
      case False
      with 1(2) s have "loop corpus d ranks' = Some res" by simp
      from 1(1)[OF this] a k show ?thesis by simp
    qed
  qed
qed

lemma iterate_pagerank_no_error:
  assumes "is_dict corpus"
  shows "iterate_pagerank corpus d \<noteq> Some (Inl e)"
proof
  assume "iterate_pagerank corpus d = Some (Inl e)"
  then have "iterate_loop corpus d
      (map (\<lambda>key. (key, int_truediv 1 (int (length corpus)))) (map fst corpus)) = Some (Inl e)"
    by (simp only: iterate_pagerank_def)
  from iterate_loop_no_error[OF this] assms show False by (simp add: image_comp comp_def)
qed

text \<open>
  C9, as stated for every non-empty corpus, fails for \<open>iterate_pagerank\<close>: on
  \<open>cycle_pages\<close> with the damping factor \<open>0.9999999999999999\<close> it returns no mapping.
  After the first sweep the ranks of \<open>A\<close>, \<open>D\<close>, \<open>B\<close>, \<open>C\<close> are \<open>1/2\<close>, \<open>2^-55\<close>,
  \<open>1/4\<close>, \<open>1/2\<close>; the next sweep gives \<open>1/4\<close>, \<open>2^-55\<close>, \<open>1/2\<close>, \<open>1/4\<close> and the one
  after it the first values again, the last page \<open>C\<close> moving by \<open>1/4\<close> every time, so
  the loop never ends.
\<close>

theorem iterate_pagerank_never_returns:
  "cycle_pages \<noteq> [] \<and> is_dict cycle_pages \<and> links_closed cycle_pages \<and>
   0 < near_one \<and> near_one < 1 \<and> round64 near_one = near_one \<and>
   iterate_pagerank cycle_pages near_one = None"
proof -
  have "iterate_pagerank cycle_pages near_one =
      iterate_loop cycle_pages near_one [(''A'', 1 / 4), (''D'', 1 / 4), (''B'', 1 / 4), (''C'', 1 / 4)]"
    by (simp only: iterate_pagerank_def initial_cycle_pages)
  also have "\<dots> = iterate_loop cycle_pages near_one
      [(''A'', 1 / 2), (''D'', 1 / 36028797018963968), (''B'', 1 / 4), (''C'', 1 / 2)]"
    using first_sweep_cycle_pages by (subst iterate_loop.simps) simp
  also have "\<dots> = None"
    using iterate_loop_cycle_pages[of cycle_pages near_one
        "[(''A'', 1 / 2), (''D'', 1 / 36028797018963968), (''B'', 1 / 4), (''C'', 1 / 2)]"]
    by (cases "iterate_loop cycle_pages near_one
        [(''A'', 1 / 2), (''D'', 1 / 36028797018963968), (''B'', 1 / 4), (''C'', 1 / 2)]") auto
  finally have "iterate_pagerank cycle_pages near_one = None" .
  moreover have "cycle_pages \<noteq> []" "is_dict cycle_pages" "links_closed cycle_pages"
    by (simp_all add: cycle_pages_def is_dict_def links_closed_def)
  moreover have "0 < near_one" "near_one < 1" by (simp_all add: near_one_def)
  ultimately show ?thesis using near_one_float by blast
qed

text \<open>
  C9, amended. Whenever \<open>transition_model\<close>, \<open>sample_pagerank\<close> or \<open>iterate_pagerank\<close>
  returns a mapping, the keys of that mapping are exactly the pages of the corpus.
  \<open>transition_model\<close> returns a mapping for every page of the corpus, and
  \<open>sample_pagerank\<close> for every corpus with a page, every damping factor strictly
  between 0 and 1 and every sample count other than 0. \<open>iterate_pagerank\<close> never raises
  an error on a corpus that is a dictionary, but its loop need not end.
\<close>

theorem returned_keys:
  "(transition_model corpus page d = Inr dist \<longrightarrow> set (map fst dist) = set (map fst corpus)) \<and>
   (sample_pagerank rand corpus d n = Inr tallies \<longrightarrow> set (map fst tallies) = set (map fst corpus)) \<and>
   (iterate_pagerank corpus d = Some (Inr page_ranks) \<longrightarrow>
      set (map fst page_ranks) = set (map fst corpus)) \<and>
   (page \<in> set (map fst corpus) \<longrightarrow> (\<exists>dist. transition_model corpus page d = Inr dist)) \<and>
   (corpus \<noteq> [] \<and> n \<noteq> 0 \<and> 0 < d \<and> d < 1 \<longrightarrow>
      (\<exists>tallies. sample_pagerank rand corpus d n = Inr tallies)) \<and>
   (is_dict corpus \<longrightarrow> iterate_pagerank corpus d \<noteq> Some (Inl e))"
proof -
  have 1: "set (map fst dist) = set (map fst corpus)" if "transition_model corpus page d = Inr dist"
    using transition_model_keys[OF that] by simp
  have 2: "set (map fst tallies) = set (map fst corpus)"
    if "sample_pagerank rand corpus d n = Inr tallies"
    using sample_pagerank_keys[OF that] by simp
  have 3: "set (map fst page_ranks) = set (map fst corpus)"
    if "iterate_pagerank corpus d = Some (Inr page_ranks)"
    using iterate_pagerank_keys[OF that] by simp
  have 4: "\<exists>dist. transition_model corpus page d = Inr dist" if "page \<in> set (map fst corpus)"
    using that by (intro transition_model_returns) simp
  have 5: "\<exists>tallies. sample_pagerank rand corpus d n = Inr tallies" if "corpus \<noteq> []" "n \<noteq> 0"
  proof -
    from that(1) have "map fst corpus \<noteq> []" by simp
    from random_choice_member[OF this] obtain current where
      c: "random_choice rand 0 (map fst corpus) = Inr current" and
      cm: "current \<in> set (map fst corpus)" by blast
    have k: "fst ` set (map (\<lambda>page. (page, 0 :: rat)) (map fst corpus)) = fst ` set corpus"
      by (simp add: image_comp comp_def)
    from cm have "current \<in> fst ` set corpus" by simp
    from sample_loop_returns[OF this k] obtain tallies where
      "sample_loop corpus d (int_truediv 1 n) rand 0 (nat n) current
         (map (\<lambda>page. (page, 0)) (map fst corpus)) = Inr tallies"
      by blast
    with c that(2) show ?thesis by (simp add: sample_pagerank_def)
  qed
  have 6: "iterate_pagerank corpus d \<noteq> Some (Inl e)" if "is_dict corpus"
    using that by (rule iterate_pagerank_no_error)
  from 1 2 3 4 5 6 show ?thesis by blast
qed

theorem returned_keys_witness:
  "transition_model four_pages ''A'' (1 / 2) =
     Inr [(''A'', 1 / 8), (''B'', 5 / 8), (''C'', 1 / 8), (''D'', 1 / 8)] \<and>
   sample_pagerank always_first four_pages (1 / 2) 2 =
     Inr [(''A'', 1), (''B'', 0), (''C'', 0), (''D'', 0)] \<and>
   iterate_pagerank four_pages (1 / 2) =
     Some (Inr [(''A'', 7 / 16), (''B'', 11 / 32), (''C'', 1 / 8), (''D'', 1 / 8)]) \<and>
   ''A'' \<in> set (map fst four_pages) \<and>
   four_pages \<noteq> [] \<and> (2 :: int) \<noteq> 0 \<and> (0 :: rat) < 1 / 2 \<and> (1 / 2 :: rat) < 1 \<and>
   is_dict four_pages \<and>
   set (map fst [(''A'', 1 / 8 :: rat), (''B'', 5 / 8), (''C'', 1 / 8), (''D'', 1 / 8)]) =
     set (map fst four_pages) \<and>
   set (map fst [(''A'', 1 :: rat), (''B'', 0), (''C'', 0), (''D'', 0)]) = set (map fst four_pages) \<and>
   set (map fst [(''A'', 7 / 16 :: rat), (''B'', 11 / 32), (''C'', 1 / 8), (''D'', 1 / 8)]) =
     set (map fst four_pages) \<and>
   (\<exists>dist. transition_model four_pages ''A'' (1 / 2) = Inr dist) \<and>
   (\<exists>tallies. sample_pagerank always_first four_pages (1 / 2) 2 = Inr tallies) \<and>
   iterate_pagerank four_pages (1 / 2) \<noteq> Some (Inl KeyError)"
proof -
  have h1: "''A'' \<in> set (map fst four_pages)" by (simp add: four_pages_def)
  have h2: "four_pages \<noteq> []" by (simp add: four_pages_def)
  have h3: "(2 :: int) \<noteq> 0" and h4: "(0 :: rat) < 1 / 2" and h5: "(1 / 2 :: rat) < 1"
    by simp_all
  have h6: "is_dict four_pages" by (simp add: is_dict_def four_pages_def)
  from returned_keys[of four_pages "''A''" "1 / 2"
      "[(''A'', 1 / 8), (''B'', 5 / 8), (''C'', 1 / 8), (''D'', 1 / 8)]"
      always_first 2 "[(''A'', 1), (''B'', 0), (''C'', 0), (''D'', 0)]"
      "[(''A'', 7 / 16), (''B'', 11 / 32), (''C'', 1 / 8), (''D'', 1 / 8)]" KeyError]
    transition_four_pages sample_four_pages iterate_four_pages h1 h2 h3 h4 h5 h6
  show ?thesis by blast
qed

section \<open>Inputs the sampling estimator does not check\<close>

text \<open>
  C6, as stated, fails: with the sample count \<open>-1\<close> and a corpus of one page
  \<open>sample_pagerank\<close> raises no error and returns a mapping, every page at 0.
\<close>

theorem sample_pagerank_negative_count:
  "sample_pagerank always_first single_page (1 / 2) (- 1) = Inr [(''A'', 0)]"
  by (simp add: sample_pagerank_def random_choice_def always_first_def single_page_def)

text \<open>
  C6, amended. \<open>sample_pagerank\<close> checks none of its inputs. On an empty corpus it
  fails with \<open>IndexError\<close>, raised by \<open>random.choice\<close>; on a corpus with a page and
  the sample count 0 it fails with \<open>ZeroDivisionError\<close>, raised by \<open>1 / n\<close>; on a
  corpus with a page and a negative sample count it raises no error and returns the
  mapping that gives every page 0.
\<close>

theorem sample_pagerank_unchecked_input:
  "(corpus = [] \<longrightarrow> sample_pagerank rand corpus d n = Inl IndexError) \<and>
   (corpus \<noteq> [] \<and> n = 0 \<longrightarrow> sample_pagerank rand corpus d n = Inl ZeroDivisionError) \<and>
   (corpus \<noteq> [] \<and> n < 0 \<longrightarrow>
      sample_pagerank rand corpus d n = Inr (map (\<lambda>page. (page, 0)) (map fst corpus)))"
  by (simp add: sample_pagerank_def random_choice_def)

theorem sample_pagerank_unchecked_input_witness:
  "sample_pagerank always_first ([] :: string corpus) (1 / 2) 3 = Inl IndexError \<and>
   single_page \<noteq> [] \<and>
   sample_pagerank always_first single_page (1 / 2) 0 = Inl ZeroDivisionError \<and>
   (- 2 :: int) < 0 \<and>
   sample_pagerank always_first single_page (1 / 2) (- 2) =
     Inr (map (\<lambda>page. (page, 0)) (map fst single_page))"
proof -
  have h: "single_page \<noteq> []" by (simp add: single_page_def)
  from sample_pagerank_unchecked_input[of "[] :: string corpus" always_first "1 / 2" 3]
    sample_pagerank_unchecked_input[of single_page always_first "1 / 2" 0]
    sample_pagerank_unchecked_input[of single_page always_first "1 / 2" "- 2"] h
  show ?thesis by simp
qed

section \<open>The sweep of the iterative estimator\<close>

lemma buffered_sweep_four_pages:
  "sweep_buffered four_pages (1 / 2)
     [(''A'', 1 / 4), (''B'', 1 / 4), (''C'', 1 / 4), (''D'', 1 / 4)] (map fst four_pages)
     (False, [(''A'', 1 / 4), (''B'', 1 / 4), (''C'', 1 / 4), (''D'', 1 / 4)]) =
   Inr (False, [(''A'', 1 / 2), (''B'', 1 / 4), (''C'', 1 / 8), (''D'', 1 / 8)])"
  by (simp add: four_pages_def new_rank_def get_links_def epsilon_def float_eval)

text \<open>
  C2, as stated, fails. On the corpus \<open>four_pages\<close>, where \<open>A\<close> links to \<open>B\<close>, the
  in-place sweep of the source computes the new rank of \<open>B\<close> from the rank of \<open>A\<close> it
  has just committed and gives \<open>3 / 8\<close>; the double-buffered sweep reads the rank \<open>A\<close>
  had when the sweep started and gives \<open>1 / 4\<close>.
\<close>

theorem sweep_not_buffered:
  "sweep four_pages (1 / 2) (map fst four_pages)
     (False, [(''A'', 1 / 4), (''B'', 1 / 4), (''C'', 1 / 4), (''D'', 1 / 4)]) =
     Inr (False, [(''A'', 1 / 2), (''B'', 3 / 8), (''C'', 1 / 8), (''D'', 1 / 8)]) \<and>
   sweep_buffered four_pages (1 / 2)
     [(''A'', 1 / 4), (''B'', 1 / 4), (''C'', 1 / 4), (''D'', 1 / 4)] (map fst four_pages)
     (False, [(''A'', 1 / 4), (''B'', 1 / 4), (''C'', 1 / 4), (''D'', 1 / 4)]) =
     Inr (False, [(''A'', 1 / 2), (''B'', 1 / 4), (''C'', 1 / 8), (''D'', 1 / 8)]) \<and>
   sweep four_pages (1 / 2) (map fst four_pages)
     (False, [(''A'', 1 / 4), (''B'', 1 / 4), (''C'', 1 / 4), (''D'', 1 / 4)]) \<noteq>
   sweep_buffered four_pages (1 / 2)
     [(''A'', 1 / 4), (''B'', 1 / 4), (''C'', 1 / 4), (''D'', 1 / 4)] (map fst four_pages)
     (False, [(''A'', 1 / 4), (''B'', 1 / 4), (''C'', 1 / 4), (''D'', 1 / 4)])"
  by (simp add: first_sweep_four_pages buffered_sweep_four_pages)

lemma sweep_append:
  "sweep corpus d (xs @ ys) st =
     (case sweep corpus d xs st of Inl e \<Rightarrow> Inl e | Inr st' \<Rightarrow> sweep corpus d ys st')"
proof (induction xs arbitrary: st)
  case Nil
  show ?case by simp
next
  case (Cons x xs)
  obtain flag ranks where "st = (flag, ranks)" by (cases st)
  with Cons show ?case by (simp split: sum.splits option.splits)
qed

lemma sweep_untouched:
  "sweep corpus d pages (flag, ranks) = Inr (flag', ranks') \<Longrightarrow> k \<notin> set pages \<Longrightarrow>
     map_of ranks' k = map_of ranks k"
proof (induction pages arbitrary: flag ranks)
  case Nil
  then show ?case by simp
next
  case (Cons page pages)
  from Cons.prems(1) obtain npr old where
    r: "sweep corpus d pages (\<bar>fsub old npr\<bar> < epsilon, AList.update page npr ranks)
          = Inr (flag', ranks')"
    by (auto split: option.splits sum.splits)
  from Cons.IH[OF r] Cons.prems(2) show ?case by (simp add: update_conv')
qed

lemma sweep_head:
  assumes "sweep corpus d (page # pages) (flag, ranks) = Inr (flag', ranks')"
    and "page \<notin> set pages"
  shows "\<exists>npr. new_rank corpus d ranks page = Inr npr \<and> map_of ranks' page = Some npr"
proof -
  from assms(1) obtain npr old where
    n: "new_rank corpus d ranks page = Inr npr" and
    r: "sweep corpus d pages (\<bar>fsub old npr\<bar> < epsilon, AList.update page npr ranks)
          = Inr (flag', ranks')"
    by (auto split: option.splits sum.splits)
  from sweep_untouched[OF r assms(2)] have "map_of ranks' page = Some npr"
    by (simp add: update_conv')
  with n show ?thesis by blast
qed

text \<open>
  C2, amended. A sweep updates \<open>page_ranks\<close> in place, so the new rank of the page at
  position \<open>i\<close> of the sweep is computed from the mapping as it stands when the page is
  reached (\<open>ranks_i\<close>, the result of sweeping the \<open>i\<close> pages before it): that mapping
  holds, for every page before position \<open>i\<close>, the value committed earlier in the same
  sweep, and for the page itself and every page after it the value from the start of
  the sweep.
\<close>

theorem sweep_in_place:
  assumes "sweep corpus d pages (flag, ranks) = Inr (flag', ranks')"
    and "distinct pages" and "i < length pages"
  shows "\<exists>flag_i ranks_i npr.
           sweep corpus d (take i pages) (flag, ranks) = Inr (flag_i, ranks_i) \<and>
           new_rank corpus d ranks_i (pages ! i) = Inr npr \<and>
           map_of ranks' (pages ! i) = Some npr \<and>
           (\<forall>j<i. map_of ranks_i (pages ! j) = map_of ranks' (pages ! j)) \<and>
           (\<forall>j. i \<le> j \<and> j < length pages \<longrightarrow> map_of ranks_i (pages ! j) = map_of ranks (pages ! j))"
proof -
  let ?xs = "take i pages" and ?ys = "drop (Suc i) pages"
  have split: "pages = ?xs @ (pages ! i # ?ys)"
    using assms(3) by (rule id_take_nth_drop)
  with assms(2) have d: "distinct (?xs @ (pages ! i # ?ys))" by simp
  from assms(1) split
  have "sweep corpus d (?xs @ (pages ! i # ?ys)) (flag, ranks) = Inr (flag', ranks')" by simp
  then obtain st where a: "sweep corpus d ?xs (flag, ranks) = Inr st"
    and b: "sweep corpus d (pages ! i # ?ys) st = Inr (flag', ranks')"
    by (auto simp: sweep_append split: sum.splits)
  obtain flag_i ranks_i where st: "st = (flag_i, ranks_i)" by (cases st)
  from d have notin: "pages ! i \<notin> set ?ys" by simp
  from sweep_head[OF b[unfolded st] notin] obtain npr where
    n: "new_rank corpus d ranks_i (pages ! i) = Inr npr" and
    m: "map_of ranks' (pages ! i) = Some npr" by blast
  have before: "map_of ranks_i (pages ! j) = map_of ranks' (pages ! j)" if "j < i" for j
  proof -
    from that assms(3) have "j < length ?xs" and "?xs ! j = pages ! j" by simp_all
    then have "pages ! j \<in> set ?xs" by (metis nth_mem)
    with d have "pages ! j \<notin> set (pages ! i # ?ys)" by auto
    from sweep_untouched[OF b[unfolded st] this] show ?thesis by simp
  qed
  have after: "map_of ranks_i (pages ! j) = map_of ranks (pages ! j)"
    if "i \<le> j" "j < length pages" for j
  proof -
    from that have "j - i < length (drop i pages)" and "drop i pages ! (j - i) = pages ! j"
      by simp_all
    then have "pages ! j \<in> set (drop i pages)" by (metis nth_mem)
    then have "pages ! j \<in> set (pages ! i # ?ys)"
      using assms(3) by (simp add: Cons_nth_drop_Suc)
    with d have "pages ! j \<notin> set ?xs" by auto
    from sweep_untouched[OF a[unfolded st] this] show ?thesis .
  qed
  from a st n m before after show ?thesis by blast
qed

theorem sweep_in_place_witness:
  "sweep four_pages (1 / 2) (map fst four_pages)
     (False, [(''A'', 1 / 4), (''B'', 1 / 4), (''C'', 1 / 4), (''D'', 1 / 4)]) =
     Inr (False, [(''A'', 1 / 2), (''B'', 3 / 8), (''C'', 1 / 8), (''D'', 1 / 8)]) \<and>
   distinct (map fst four_pages) \<and> 1 < length (map fst four_pages) \<and>
   (\<exists>flag_i ranks_i npr.
      sweep four_pages (1 / 2) (take 1 (map fst four_pages))
        (False, [(''A'', 1 / 4), (''B'', 1 / 4), (''C'', 1 / 4), (''D'', 1 / 4)]) =
        Inr (flag_i, ranks_i) \<and>
      new_rank four_pages (1 / 2) ranks_i (map fst four_pages ! 1) = Inr npr \<and>
      map_of [(''A'', 1 / 2), (''B'', 3 / 8), (''C'', 1 / 8), (''D'', 1 / 8)]
        (map fst four_pages ! 1) = Some npr)"
proof -
  have h2: "distinct (map fst four_pages)" by (simp add: four_pages_def)
  have h3: "1 < length (map fst four_pages)" by (simp add: four_pages_def)
  from sweep_in_place[OF first_sweep_four_pages h2 h3] first_sweep_four_pages h2 h3
  show ?thesis by blast
qed

section \<open>Termination test and sum of the iterative estimator\<close>

lemma iterate_sink_pair:
  "iterate_pagerank sink_pair (1 / 2) = Some (Inr [(''A'', 1 / 4), (''B'', 3 / 8)])"
proof -
  have 0: "map (\<lambda>key. (key, int_truediv 1 (int (length sink_pair)))) (map fst sink_pair) =
      [(''A'', 1 / 2), (''B'', 1 / 2)]"
    by (simp add: sink_pair_def float_eval)
  have 1: "sweep sink_pair (1 / 2) [''A'', ''B''] (False, [(''A'', 1 / 2), (''B'', 1 / 2)]) =
      Inr (False, [(''A'', 1 / 4), (''B'', 3 / 8)])"
    by (simp add: sink_pair_def new_rank_def get_links_def epsilon_def float_eval)
  have 2: "sweep sink_pair (1 / 2) [''A'', ''B''] (False, [(''A'', 1 / 4), (''B'', 3 / 8)]) =
      Inr (True, [(''A'', 1 / 4), (''B'', 3 / 8)])"
    by (simp add: sink_pair_def new_rank_def get_links_def epsilon_def float_eval)
  have "iterate_pagerank sink_pair (1 / 2) =
      iterate_loop sink_pair (1 / 2) [(''A'', 1 / 2), (''B'', 1 / 2)]"
    by (simp only: iterate_pagerank_def 0)
  also have "\<dots> = iterate_loop sink_pair (1 / 2) [(''A'', 1 / 4), (''B'', 3 / 8)]"
    using 1 by (subst iterate_loop.simps) simp
  also have "\<dots> = Some (Inr [(''A'', 1 / 4), (''B'', 3 / 8)])"
    using 2 by (subst iterate_loop.simps) simp
  finally show ?thesis .
qed

lemma epsilon_value: "epsilon = 1152921504606847 / 1152921504606846976"
  by (simp add: epsilon_def float_eval)

text \<open>
  C1 on the corpus \<open>four_pages\<close> (\<open>A\<close> and \<open>B\<close> link to each other, \<open>C\<close> and \<open>D\<close> link
  to \<open>A\<close>) with damping factor \<open>1 / 2\<close>. The flag \<open>difference\<close> is assigned at every
  page, so when a sweep ends it holds the test of the last page only. The second sweep
  starts from \<open>A = 1 / 2\<close> and ends with the flag set, because the last page \<open>D\<close> did
  not change, and \<open>iterate_pagerank\<close> returns its result; in that sweep \<open>A\<close> moved
  from \<open>1 / 2\<close> to \<open>7 / 16\<close>, which is not a change below \<open>0.001\<close>.
\<close>

theorem iterate_pagerank_stops_early:
  "iterate_pagerank four_pages (1 / 2) =
     Some (Inr [(''A'', 7 / 16), (''B'', 11 / 32), (''C'', 1 / 8), (''D'', 1 / 8)]) \<and>
   sweep four_pages (1 / 2) (map fst four_pages)
     (False, [(''A'', 1 / 2), (''B'', 3 / 8), (''C'', 1 / 8), (''D'', 1 / 8)]) =
     Inr (True, [(''A'', 7 / 16), (''B'', 11 / 32), (''C'', 1 / 8), (''D'', 1 / 8)]) \<and>
   \<not> \<bar>fsub (1 / 2) (7 / 16)\<bar> < epsilon"
proof -
  have "\<not> \<bar>fsub (1 / 2) (7 / 16)\<bar> < epsilon"
    by (simp add: epsilon_value) (simp add: float_eval)
  with iterate_four_pages second_sweep_four_pages show ?thesis by blast
qed

text \<open>
  C3 on the same input: the returned ranks sum to \<open>33 / 32\<close>, which is further than
  \<open>0.001\<close> from 1. On \<open>sink_pair\<close>, where \<open>B\<close> has no outbound links, they sum to
  \<open>5 / 8\<close>.
\<close>

theorem iterate_pagerank_sum_off:
  "iterate_pagerank four_pages (1 / 2) =
     Some (Inr [(''A'', 7 / 16), (''B'', 11 / 32), (''C'', 1 / 8), (''D'', 1 / 8)]) \<and>
   tally_sum [(''A'', 7 / 16), (''B'', 11 / 32), (''C'', 1 / 8), (''D'', 1 / 8)] = 33 / 32 \<and>
   \<not> \<bar>tally_sum [(''A'', 7 / 16), (''B'', 11 / 32), (''C'', 1 / 8), (''D'', 1 / 8)] - 1\<bar>
       \<le> 1 / 1000 \<and>
   iterate_pagerank sink_pair (1 / 2) = Some (Inr [(''A'', 1 / 4), (''B'', 3 / 8)]) \<and>
   tally_sum [(''A'', 1 / 4), (''B'', 3 / 8)] = 5 / 8"
  using iterate_four_pages iterate_sink_pair by (simp add: tally_sum_def)

section \<open>Accumulated rounding error\<close>

lemma rho_ge_1: "1 \<le> rho"
  by (simp add: rho_def unit_roundoff_def)

lemma rho_pos: "0 < rho"
  using rho_ge_1 by linarith

lemma rho_pow_ge_1: "1 \<le> rho ^ k"
  using rho_ge_1 by (rule one_le_power)

lemma rho_pow_mono: "j \<le> k \<Longrightarrow> rho ^ j \<le> rho ^ k"
  using rho_ge_1 by (rule power_increasing[rotated])

lemma within_refl: "0 \<le> x \<Longrightarrow> within k x x"
  using rho_pow_ge_1[of k] by (simp add: within_def mult_le_cancel_left1)

lemma within_nonneg: "within k x e \<Longrightarrow> 0 \<le> e \<Longrightarrow> 0 \<le> x"
proof -
  assume "within k x e" "0 \<le> e"
  then have "0 \<le> x * rho ^ k" by (simp add: within_def)
  moreover have "0 < rho ^ k" using rho_pos by simp
  ultimately show ?thesis by (simp add: zero_le_mult_iff)
qed

lemma within_mono:
  assumes "within j x e" "j \<le> k" "0 \<le> e"
  shows "within k x e"
proof -
  have x: "0 \<le> x" using assms(1,3) by (rule within_nonneg)
  have p: "rho ^ j \<le> rho ^ k" using assms(2) by (rule rho_pow_mono)
  have "e \<le> x * rho ^ j" "x \<le> e * rho ^ j" using assms(1) by (simp_all add: within_def)
  moreover have "x * rho ^ j \<le> x * rho ^ k" using x p by (rule mult_left_mono[rotated])
  moreover have "e * rho ^ j \<le> e * rho ^ k" using assms(3) p by (rule mult_left_mono[rotated])
  ultimately show ?thesis by (simp add: within_def)
qed

lemma within_trans:
  assumes "within j x y" "within k y z"
  shows "within (j + k) x z"
proof -
  have p: "0 \<le> rho ^ k" "0 \<le> rho ^ j" using rho_pos by simp_all
  have "z \<le> y * rho ^ k" using assms(2) by (simp add: within_def)
  also have "\<dots> \<le> (x * rho ^ j) * rho ^ k"
    using assms(1) p by (intro mult_right_mono) (simp_all add: within_def)
  finally have 1: "z \<le> x * rho ^ (j + k)" by (simp add: power_add mult.assoc)
  have "x \<le> y * rho ^ j" using assms(1) by (simp add: within_def)
  also have "\<dots> \<le> (z * rho ^ k) * rho ^ j"
    using assms(2) p by (intro mult_right_mono) (simp_all add: within_def)
  finally have 2: "x \<le> z * rho ^ (j + k)" by (simp add: power_add mult_ac)
  from 1 2 show ?thesis by (simp add: within_def)
qed

lemma within_add:
  assumes "within k x e" "within k y f"
  shows "within k (x + y) (e + f)"
  using assms by (simp add: within_def distrib_right add_mono)

lemma within_scale:
  assumes "within k x e" "0 \<le> c"
  shows "within k (c * x) (c * e)"
proof -
  from assms have "c * e \<le> c * (x * rho ^ k)" "c * x \<le> c * (e * rho ^ k)"
    by (simp_all add: within_def mult_left_mono)
  then show ?thesis by (simp add: within_def mult.assoc)
qed

lemma within_divide:
  assumes "within j x e" "within k y f" "0 \<le> e" "0 < y" "0 < f"
  shows "within (j + k) (x / y) (e / f)"
proof -
  have x: "0 \<le> x" using assms(1,3) by (rule within_nonneg)
  have pj: "0 < rho ^ j" and pk: "0 < rho ^ k" using rho_pos by simp_all
  have a: "e \<le> x * rho ^ j" "x \<le> e * rho ^ j" "f \<le> y * rho ^ k" "y \<le> f * rho ^ k"
    using assms(1,2) by (simp_all add: within_def)
  have "e / f \<le> (x * rho ^ j) / f"
    using a(1) assms(5) by (simp add: divide_right_mono)
  also have "\<dots> \<le> (x * rho ^ j) / (y / rho ^ k)"
  proof (rule divide_left_mono)
    show "y / rho ^ k \<le> f" using a(4) pk by (simp add: pos_divide_le_eq)
    show "0 \<le> x * rho ^ j" using x pj by simp
    show "0 < f * (y / rho ^ k)" using assms(4,5) pk by simp
  qed
  also have "\<dots> = x / y * rho ^ (j + k)" by (simp add: power_add)
  finally have 1: "e / f \<le> x / y * rho ^ (j + k)" .
  have "x / y \<le> (e * rho ^ j) / y"
    using a(2) assms(4) by (simp add: divide_right_mono)
  also have "\<dots> \<le> (e * rho ^ j) / (f / rho ^ k)"
  proof (rule divide_left_mono)
    show "f / rho ^ k \<le> y" using a(3) pk by (simp add: pos_divide_le_eq)
    show "0 \<le> e * rho ^ j" using assms(3) pj by simp
    show "0 < y * (f / rho ^ k)" using assms(4,5) pk by simp
  qed
  also have "\<dots> = e / f * rho ^ (j + k)" by (simp add: power_add)
  finally have 2: "x / y \<le> e / f * rho ^ (j + k)" .
  from 1 2 show ?thesis by (simp add: within_def)
qed

lemma within_round64:
  assumes "0 \<le> x"
  shows "within 1 (round64 x) x"
proof -
  have u: "0 < 1 - unit_roundoff" "1 \<le> 1 + unit_roundoff"
    using unit_roundoff_range by simp_all
  have r: "0 \<le> round64 x" using assms by (rule round64_nonneg)
  have "x * (1 - unit_roundoff) \<le> round64 x" using assms by (rule round64_bounds(1))
  then have "x \<le> round64 x / (1 - unit_roundoff)" using u(1) by (simp add: pos_le_divide_eq)
  also have "\<dots> \<le> round64 x * (1 + unit_roundoff) / (1 - unit_roundoff)"
    using r u by (intro divide_right_mono) (simp_all add: mult_le_cancel_left1)
  finally have 1: "x \<le> round64 x * rho ^ 1" by (simp add: rho_def)
  have "round64 x \<le> x * (1 + unit_roundoff)" using assms by (rule round64_bounds(2))
  also have "\<dots> \<le> x * (1 + unit_roundoff) / (1 - unit_roundoff)"
  proof -
    have "0 \<le> x * (1 + unit_roundoff)" using assms u by simp
    moreover have "1 - unit_roundoff \<le> 1" using unit_roundoff_range by simp
    ultimately show ?thesis using u(1) by (simp add: pos_le_divide_eq mult_left_le)
  qed
  finally have 2: "round64 x \<le> x * rho ^ 1" by (simp add: rho_def)
  from 1 2 show ?thesis by (simp add: within_def)
qed

lemma within_round64_of:
  assumes "within k x e" "0 \<le> e"
  shows "within (Suc k) (round64 x) e"
proof -
  have "0 \<le> x" using assms by (rule within_nonneg)
  from within_trans[OF within_round64[OF this] assms(1)] show ?thesis by simp
qed

section \<open>Sum of a transition distribution\<close>

lemma update_append: "k \<notin> fst ` set al \<Longrightarrow> AList.update k v al = al @ [(k, v)]"
  by (induction al) auto

lemma fold_update_distinct:
  "distinct keys \<Longrightarrow> set keys \<inter> fst ` set acc = {} \<Longrightarrow>
     fold (\<lambda>key. AList.update key (g key)) keys acc = acc @ map (\<lambda>k. (k, g k)) keys"
proof (induction keys arbitrary: acc)
  case Nil
  show ?case by simp
next
  case (Cons k keys)
  from Cons.prems have k: "k \<notin> fst ` set acc" by auto
  have "set keys \<inter> fst ` set (acc @ [(k, g k)]) = {}" using Cons.prems by auto
  with Cons have "fold (\<lambda>key. AList.update key (g key)) keys (acc @ [(k, g k)]) =
      (acc @ [(k, g k)]) @ map (\<lambda>k. (k, g k)) keys"
    by simp
  then show ?case by (simp add: update_append[OF k])
qed

lemma tally_sum_fold:
  assumes "distinct keys"
  shows "tally_sum (fold (\<lambda>key. AList.update key (g key)) keys []) = sum_list (map g keys)"
proof -
  have "fold (\<lambda>key. AList.update key (g key)) keys [] = map (\<lambda>k. (k, g k)) keys"
    using fold_update_distinct[OF assms, of "[]" g] by simp
  then show ?thesis by (simp add: tally_sum_def comp_def)
qed

lemma sum_list_const: "sum_list (map (\<lambda>k. c) keys) = of_nat (length keys) * (c :: rat)"
  by (induction keys) (simp_all add: distrib_right)

lemma sum_list_two_values:
  "sum_list (map (\<lambda>k. if P k then v else b) keys) =
     v * of_nat (length (filter P keys)) + (b :: rat) * of_nat (length (filter (\<lambda>k. \<not> P k) keys))"
  by (induction keys) (simp_all add: distrib_left)

lemma count_links:
  assumes "distinct keys" "fset links \<subseteq> set keys"
  shows "length (filter (\<lambda>k. k |\<in>| links) keys) = fcard links"
proof -
  have "distinct (filter (\<lambda>k. k |\<in>| links) keys)" using assms(1) by simp
  then have "card (set (filter (\<lambda>k. k |\<in>| links) keys)) =
      length (filter (\<lambda>k. k |\<in>| links) keys)"
    by (rule distinct_card)
  moreover have "set (filter (\<lambda>k. k |\<in>| links) keys) = fset links"
    using assms(2) by auto
  ultimately show ?thesis by (simp only: fcard.rep_eq)
qed

lemma rho_value: "rho = 9007199254740993 / 9007199254740991"
  by (simp add: rho_def unit_roundoff_def)

lemma rho4_upper: "rho ^ 4 \<le> 1 + 1 / 10 ^ 9"
  by (simp add: rho_value power_divide)

lemma rho4_lower: "1 - 1 / 10 ^ 9 \<le> 1 / rho ^ 4"
  by (simp add: rho_value power_divide)

lemma within4_tolerance:
  assumes "within 4 s 1"
  shows "\<bar>s - 1\<bar> \<le> 1 / 10 ^ 9"
proof -
  have p: "0 < rho ^ 4" using rho_pos by simp
  from assms have a: "1 \<le> s * rho ^ 4" and b: "s \<le> rho ^ 4" by (simp_all add: within_def)
  from a have "1 / rho ^ 4 \<le> s" using p by (simp add: pos_divide_le_eq)
  with rho4_lower have lo: "1 - 1 / 10 ^ 9 \<le> s" by (rule order_trans)
  from b rho4_upper have hi: "s \<le> 1 + 1 / 10 ^ 9" by (rule order_trans)
  from lo hi show ?thesis by (simp only: abs_le_iff) linarith
qed

lemma transition_sum_sink:
  assumes "distinct (map fst corpus)" "corpus \<noteq> []"
  shows "within 4 (tally_sum (fold (\<lambda>key. AList.update key (int_truediv 1 (int (length corpus))))
            (map fst corpus) [])) 1"
proof -
  define n :: rat where "n = of_nat (length corpus)"
  have n: "0 < n" using assms(2) by (simp add: n_def)
  have "within 1 (int_truediv 1 (int (length corpus))) (1 / n)"
    using within_round64[of "1 / n"] n by (simp add: int_truediv_def n_def)
  from within_scale[OF this, of n] n
  have "within 1 (n * int_truediv 1 (int (length corpus))) 1" by simp
  then have "within 4 (n * int_truediv 1 (int (length corpus))) 1"
    by (rule within_mono) simp_all
  moreover have "tally_sum (fold (\<lambda>key. AList.update key (int_truediv 1 (int (length corpus))))
      (map fst corpus) []) = n * int_truediv 1 (int (length corpus))"
  proof -
    have "tally_sum (fold (\<lambda>key. AList.update key (int_truediv 1 (int (length corpus))))
        (map fst corpus) []) =
        sum_list (map (\<lambda>_. int_truediv 1 (int (length corpus))) (map fst corpus))"
      using assms(1) by (rule tally_sum_fold)
    also have "\<dots> = of_nat (length (map fst corpus)) * int_truediv 1 (int (length corpus))"
      by (rule sum_list_const)
    finally show ?thesis by (simp add: n_def)
  qed
  ultimately show ?thesis by simp
qed

lemma transition_sum_links:
  assumes dk: "distinct (map fst corpus)" and sub: "fset links \<subseteq> set (map fst corpus)"
    and ne: "links \<noteq> {||}" and d: "0 < d" "d < 1"
  shows "within 4 (tally_sum (fold (\<lambda>key. AList.update key
            (if key |\<in>| links
             then fadd (fdiv (fsub 1 d) (float_of_nat (length corpus)))
                    (fdiv d (float_of_nat (fcard links)))
             else fdiv (fsub 1 d) (float_of_nat (length corpus))))
          (map fst corpus) [])) 1"
proof -
  define n :: rat where "n = of_nat (length corpus)"
  define l :: rat where "l = of_nat (fcard links)"
  define b where "b = fdiv (fsub 1 d) (float_of_nat (length corpus))"
  define c where "c = fdiv d (float_of_nat (fcard links))"
  define v where "v = fadd b c"
  have cnt: "length (filter (\<lambda>k. k |\<in>| links) (map fst corpus)) = fcard links"
    using dk sub by (rule count_links)
  have lpos_nat: "0 < fcard links" using ne by (metis fcard_0_eq gr0I)
  have "fcard links \<le> length (map fst corpus)"
    using cnt length_filter_le[of "\<lambda>k. k |\<in>| links" "map fst corpus"] by simp
  then have npos_nat: "0 < length corpus" using lpos_nat by (simp only: length_map order_less_le_trans)
  have l: "0 < l" using lpos_nat by (simp add: l_def)
  have n: "0 < n" using npos_nat by (simp add: n_def)
  have rest: "rat_of_nat (length (filter (\<lambda>k. \<not> k |\<in>| links) (map fst corpus))) = n - l"
  proof -
    have "length (filter (\<lambda>k. k |\<in>| links) (map fst corpus)) +
        length (filter (\<lambda>k. \<not> k |\<in>| links) (map fst corpus)) = length (map fst corpus)"
      by (rule sum_length_filter_compl)
    then have "fcard links + length (filter (\<lambda>k. \<not> k |\<in>| links) (map fst corpus)) =
        length corpus"
      using cnt by simp
    then have "rat_of_nat (fcard links + length (filter (\<lambda>k. \<not> k |\<in>| links) (map fst corpus))) =
        rat_of_nat (length corpus)"
      by simp
    then show ?thesis by (simp add: n_def l_def)
  qed
  have nl: "0 \<le> n - l" using rest of_nat_0_le_iff[where ?'a = rat] by metis
  have omd: "within 1 (fsub 1 d) (1 - d)"
    using within_round64[of "1 - d"] d by (simp add: fsub_def)
  have nf: "within 1 (float_of_nat (length corpus)) n"
    using within_round64[of n] n by (simp add: float_of_nat_def n_def)
  have nfpos: "0 < float_of_nat (length corpus)" using npos_nat by (rule float_of_nat_pos)
  have "within (1 + 1) (fsub 1 d / float_of_nat (length corpus)) ((1 - d) / n)"
    using omd nf _ nfpos n by (rule within_divide) (use d in simp)
  then have "within (Suc (1 + 1)) b ((1 - d) / n)"
    unfolding b_def fdiv_def using d n by (intro within_round64_of) simp_all
  then have b3: "within 3 b ((1 - d) / n)" by (simp add: numeral_3_eq_3)
  have lf: "within 1 (float_of_nat (fcard links)) l"
    using within_round64[of l] l by (simp add: float_of_nat_def l_def)
  have lfpos: "0 < float_of_nat (fcard links)" using lpos_nat by (rule float_of_nat_pos)
  have "within 0 d d" using d by (intro within_refl) simp
  then have "within (0 + 1) (d / float_of_nat (fcard links)) (d / l)"
    using lf _ lfpos l by (rule within_divide) (use d in simp)
  then have "within (Suc (0 + 1)) c (d / l)"
    unfolding c_def fdiv_def using d l by (intro within_round64_of) simp_all
  then have "within 3 c (d / l)" using d l by (elim within_mono) simp_all
  with b3 have "within 3 (b + c) ((1 - d) / n + d / l)" by (rule within_add)
  then have "within (Suc 3) v ((1 - d) / n + d / l)"
    unfolding v_def fadd_def using d n l by (intro within_round64_of) simp_all
  then have v4: "within 4 v ((1 - d) / n + d / l)" by simp
  have b4: "within 4 b ((1 - d) / n)" using b3 d n by (elim within_mono) simp_all
  have "within 4 (l * v) (l * ((1 - d) / n + d / l))"
    using v4 l by (intro within_scale) simp_all
  moreover have "within 4 ((n - l) * b) ((n - l) * ((1 - d) / n))"
    using b4 nl by (intro within_scale)
  ultimately have "within 4 (l * v + (n - l) * b)
      (l * ((1 - d) / n + d / l) + (n - l) * ((1 - d) / n))"
    by (rule within_add)
  moreover have "l * ((1 - d) / n + d / l) + (n - l) * ((1 - d) / n) = 1"
    using n l by (simp add: field_simps)
  moreover have "tally_sum (fold (\<lambda>key. AList.update key (if key |\<in>| links then v else b))
      (map fst corpus) []) = l * v + (n - l) * b"
  proof -
    have "tally_sum (fold (\<lambda>key. AList.update key (if key |\<in>| links then v else b))
        (map fst corpus) []) =
        sum_list (map (\<lambda>key. if key |\<in>| links then v else b) (map fst corpus))"
      using dk by (rule tally_sum_fold)
    also have "\<dots> = v * of_nat (length (filter (\<lambda>k. k |\<in>| links) (map fst corpus))) +
        b * of_nat (length (filter (\<lambda>k. \<not> k |\<in>| links) (map fst corpus)))"
      by (rule sum_list_two_values)
    also have "\<dots> = l * v + (n - l) * b"
      by (simp only: cnt rest l_def mult.commute)
    finally show ?thesis .
  qed
  ultimately have "within 4 (tally_sum (fold (\<lambda>key. AList.update key
      (if key |\<in>| links then v else b)) (map fst corpus) [])) 1"
    by simp
  then show ?thesis by (simp only: v_def b_def c_def)
qed

text \<open>
  C5. For a corpus (a dictionary whose link sets name pages of the corpus only), a page
  of the corpus and a damping factor strictly between 0 and 1, \<open>transition_model\<close>
  returns a distribution whose values, added exactly, are within \<open>10^-9\<close> of 1.
\<close>

theorem transition_model_sums_to_one:
  assumes "is_dict corpus" and "links_closed corpus"
    and "map_of corpus page = Some links" and "0 < d" and "d < 1"
  shows "\<exists>dist. transition_model corpus page d = Inr dist \<and> \<bar>tally_sum dist - 1\<bar> \<le> 1 / 10 ^ 9"
proof -
  have dk: "distinct (map fst corpus)" using assms(1) by (simp add: is_dict_def)
  from assms(3) have mem: "(page, links) \<in> set corpus" by (rule map_of_SomeD)
  then have ne: "corpus \<noteq> []" by auto
  from assms(2) mem have sub: "fset links \<subseteq> set (map fst corpus)"
    by (auto simp: links_closed_def list_all_iff)
  show ?thesis
  proof (cases "links = {||}")
    case True
    with assms(3) have eq: "transition_model corpus page d =
        Inr (fold (\<lambda>key. AList.update key (int_truediv 1 (int (length corpus))))
          (map fst corpus) [])"
      by (simp add: transition_model_def)
    from within4_tolerance[OF transition_sum_sink[OF dk ne]] eq show ?thesis by simp
  next
    case False
    with assms(3) have eq: "transition_model corpus page d =
        Inr (fold (\<lambda>key. AList.update key
            (if key |\<in>| links
             then fadd (fdiv (fsub 1 d) (float_of_nat (length corpus)))
                    (fdiv d (float_of_nat (fcard links)))
             else fdiv (fsub 1 d) (float_of_nat (length corpus))))
          (map fst corpus) [])"
      by (simp add: transition_model_def Let_def)
    from within4_tolerance[OF transition_sum_links[OF dk sub False assms(4,5)]] eq
    show ?thesis by simp
  qed
qed

theorem transition_model_sums_to_one_witness:
  "is_dict four_pages \<and> links_closed four_pages \<and>
   map_of four_pages ''A'' = Some {|''B''|} \<and> (0 :: rat) < 1 / 2 \<and> (1 / 2 :: rat) < 1 \<and>
   (\<exists>dist. transition_model four_pages ''A'' (1 / 2) = Inr dist \<and>
      \<bar>tally_sum dist - 1\<bar> \<le> 1 / 10 ^ 9)"
proof -
  have h1: "is_dict four_pages" by (simp add: is_dict_def four_pages_def)
  have h2: "links_closed four_pages" by (simp add: links_closed_def four_pages_def)
  have h3: "map_of four_pages ''A'' = Some {|''B''|}" by (simp add: four_pages_def)
  have h4: "(0 :: rat) < 1 / 2" and h5: "(1 / 2 :: rat) < 1" by simp_all
  from transition_model_sums_to_one[OF h1 h2 h3 h4 h5] h1 h2 h3 h4 h5 show ?thesis by blast
qed

section \<open>Sum of the sampled tallies\<close>

text \<open>
  C7, as stated, fails. With ten samples on a corpus of one page the only tally is the
  float sum of ten copies of the float \<open>0.1\<close>, which is \<open>1 - 2^-53\<close>, not 1.
\<close>

theorem sample_pagerank_sum_inexact:
  "sample_pagerank always_first single_page (1 / 2) 10 =
     Inr [(''A'', 9007199254740991 / 9007199254740992)] \<and>
   tally_sum [(''A'', 9007199254740991 / 9007199254740992)] \<noteq> 1"
  using sample_single_page by (simp add: tally_sum_def)

lemma tally_sum_update:
  "map_of al k = Some t \<Longrightarrow> tally_sum (AList.update k v al) = tally_sum al - t + v"
  by (induction al) (auto simp: tally_sum_def)

lemma tally_rest_nonneg:
  "map_of al k = Some t \<Longrightarrow> \<forall>p \<in> set al. 0 \<le> snd p \<Longrightarrow> 0 \<le> tally_sum al - t"
proof (induction al)
  case Nil
  then show ?case by simp
next
  case (Cons p al)
  have s: "0 \<le> sum_list (map snd al)" using Cons.prems(2) by (intro sum_list_nonneg) auto
  show ?case
  proof (cases "fst p = k")
    case True
    with Cons.prems(1) have "snd p = t" by (cases p) auto
    with s show ?thesis by (simp add: tally_sum_def)
  next
    case False
    with Cons.prems(1) have "map_of al k = Some t" by (cases p) auto
    from Cons.IH[OF this] Cons.prems(2) show ?thesis by (simp add: tally_sum_def)
  qed
qed

lemma tally_entry_nonneg:
  "map_of al k = Some t \<Longrightarrow> \<forall>p \<in> set al. 0 \<le> snd p \<Longrightarrow> 0 \<le> t"
proof -
  assume "map_of al k = Some t" and a: "\<forall>p \<in> set al. 0 \<le> snd p"
  then have "(k, t) \<in> set al" by (simp add: map_of_SomeD)
  with a have "0 \<le> snd (k, t)" by (rule bspec)
  then show ?thesis by simp
qed

lemma update_nonneg:
  "\<forall>p \<in> set al. 0 \<le> snd p \<Longrightarrow> 0 \<le> v \<Longrightarrow> \<forall>p \<in> set (AList.update k v al). 0 \<le> (snd p :: rat)"
  by (induction al) auto

lemma sample_loop_sum:
  assumes "sample_loop corpus d s rand i k current page_ranks = Inr result"
    and "within 1 s e" and "0 \<le> e"
    and "\<forall>p \<in> set page_ranks. 0 \<le> snd p"
    and "within m (tally_sum page_ranks) expected" and "0 \<le> expected" and "1 \<le> m"
  shows "within (m + k) (tally_sum result) (expected + of_nat k * e)"
  using assms(1,4,5,6,7)
proof (induction k arbitrary: i current page_ranks m expected)
  case 0
  then show ?case by simp
next
  case (Suc k)
  from Suc.prems(1) obtain tally transition next_page where
    t: "map_of page_ranks current = Some tally" and
    r: "sample_loop corpus d s rand (Suc i) k next_page
          (AList.update current (fadd tally s) page_ranks) = Inr result"
    by (auto split: option.splits sum.splits)
  let ?ranks = "AList.update current (fadd tally s) page_ranks"
  have s0: "0 \<le> s" using assms(2,3) by (rule within_nonneg)
  have t0: "0 \<le> tally" using t Suc.prems(2) by (rule tally_entry_nonneg)
  have rest0: "0 \<le> tally_sum page_ranks - tally" using t Suc.prems(2) by (rule tally_rest_nonneg)
  have new0: "0 \<le> fadd tally s" using t0 s0 by (simp add: fadd_def round64_nonneg)
  have nonneg: "\<forall>p \<in> set ?ranks. 0 \<le> snd p"
    using Suc.prems(2) new0 by (rule update_nonneg)
  have sum: "tally_sum ?ranks = (tally_sum page_ranks - tally) + fadd tally s"
    using t by (rule tally_sum_update)
  have "within 1 (tally_sum page_ranks - tally) (tally_sum page_ranks - tally)"
    using rest0 by (rule within_refl)
  moreover have "within 1 (fadd tally s) (tally + s)"
    unfolding fadd_def using t0 s0 by (intro within_round64) simp
  ultimately have "within 1 ((tally_sum page_ranks - tally) + fadd tally s)
      ((tally_sum page_ranks - tally) + (tally + s))"
    by (rule within_add)
  then have a: "within 1 (tally_sum ?ranks) (tally_sum page_ranks + s)"
    by (simp add: sum)
  have "within m s e" using assms(2) Suc.prems(5) assms(3) by (rule within_mono)
  with Suc.prems(3) have b: "within m (tally_sum page_ranks + s) (expected + e)"
    by (rule within_add)
  from within_trans[OF a b] have c: "within (Suc m) (tally_sum ?ranks) (expected + e)" by simp
  have "within (Suc m + k) (tally_sum result) ((expected + e) + of_nat k * e)"
    using r nonneg c by (rule Suc.IH) (use Suc.prems(4) assms(3) in simp_all)
  then show ?case by (simp add: algebra_simps)
qed

lemma rho_pow_bound:
  fixes x :: rat
  assumes "0 \<le> x"
  shows "(1 + x) ^ m * (1 - of_nat m * x) \<le> 1"
proof (induction m)
  case 0
  show ?case by simp
next
  case (Suc m)
  have p: "0 \<le> (1 + x) ^ m" using assms by simp
  have "(1 + x) * (1 - of_nat (Suc m) * x) = (1 - of_nat m * x) - of_nat (Suc m) * x * x"
    by (simp add: algebra_simps)
  also have "\<dots> \<le> 1 - of_nat m * x"
    using assms by simp
  finally have "(1 + x) ^ m * ((1 + x) * (1 - of_nat (Suc m) * x)) \<le>
      (1 + x) ^ m * (1 - of_nat m * x)"
    using p by (rule mult_left_mono)
  moreover have "(1 + x) ^ Suc m * (1 - of_nat (Suc m) * x) =
      (1 + x) ^ m * ((1 + x) * (1 - of_nat (Suc m) * x))"
    by (simp only: power_Suc mult_ac)
  ultimately have "(1 + x) ^ Suc m * (1 - of_nat (Suc m) * x) \<le> (1 + x) ^ m * (1 - of_nat m * x)"
    by (simp only:)
  then show ?case using Suc by (rule order_trans)
qed

lemma rho_million: "m \<le> 1000001 \<Longrightarrow> rho ^ m \<le> 1 + 1 / 10 ^ 9"
proof -
  assume m: "m \<le> 1000001"
  define x :: rat where "x = 2 / 9007199254740991"
  have rx: "rho = 1 + x" by (simp add: rho_value x_def)
  have c: "0 < 1 - of_nat 1000001 * x" by (simp add: x_def)
  have "rho ^ m \<le> rho ^ 1000001" using m by (rule rho_pow_mono)
  then have "rho ^ m * (1 - of_nat 1000001 * x) \<le> rho ^ 1000001 * (1 - of_nat 1000001 * x)"
    using c by (intro mult_right_mono) simp_all
  moreover have "rho ^ 1000001 * (1 - of_nat 1000001 * x) \<le> 1"
    unfolding rx by (rule rho_pow_bound) (simp add: x_def)
  ultimately have "rho ^ m * (1 - of_nat 1000001 * x) \<le> 1" by (rule order_trans)
  then have "rho ^ m \<le> 1 / (1 - of_nat 1000001 * x)"
    using c by (simp only: pos_le_divide_eq)
  also have "\<dots> \<le> 1 + 1 / 10 ^ 9" by (simp add: x_def)
  finally show ?thesis .
qed

text \<open>
  C7, amended. On a corpus with a page, for a damping factor strictly between 0 and 1
  and a sample count \<open>n \<ge> 1\<close>, \<open>sample_pagerank\<close> returns tallies, for every outcome
  of the random draws, whose exact sum is 1 up to rounding: it differs from 1 by at most
  the factor \<open>rho ^ (n + 1)\<close>, and so by at most \<open>10^-9\<close> when \<open>n\<close> is at most a
  million.
\<close>

theorem sample_pagerank_sum_rounded:
  assumes "corpus \<noteq> []" and "1 \<le> n" and "0 < d" and "d < 1"
  shows "\<exists>tallies. sample_pagerank rand corpus d n = Inr tallies \<and>
           1 \<le> tally_sum tallies * rho ^ (nat n + 1) \<and>
           tally_sum tallies \<le> rho ^ (nat n + 1) \<and>
           (n \<le> 1000000 \<longrightarrow> \<bar>tally_sum tallies - 1\<bar> \<le> 1 / 10 ^ 9)"
proof -
  let ?zero = "map (\<lambda>page. (page, 0 :: rat)) (map fst corpus)"
  from assms(1) have "map fst corpus \<noteq> []" by simp
  from random_choice_member[OF this] obtain current where
    c: "random_choice rand 0 (map fst corpus) = Inr current" and
    cm: "current \<in> set (map fst corpus)" by blast
  have k: "fst ` set ?zero = fst ` set corpus" by (simp add: image_comp comp_def)
  from cm have "current \<in> fst ` set corpus" by simp
  from sample_loop_returns[OF this k] obtain tallies where
    l: "sample_loop corpus d (int_truediv 1 n) rand 0 (nat n) current ?zero = Inr tallies"
    by blast
  have r: "sample_pagerank rand corpus d n = Inr tallies"
    using c l assms(2) by (simp add: sample_pagerank_def)
  define e :: rat where "e = 1 / of_int n"
  have e: "0 \<le> e" using assms(2) by (simp add: e_def)
  have s: "within 1 (int_truediv 1 n) e"
    using within_round64[OF e] by (simp add: int_truediv_def e_def)
  have z: "tally_sum ?zero = 0" by (simp add: tally_sum_def comp_def)
  have ne: "0 + rat_of_nat (nat n) * e = 1" using assms(2) by (simp add: e_def)
  have "within (1 + nat n) (tally_sum tallies) (0 + of_nat (nat n) * e)"
    using l s e
  proof (rule sample_loop_sum)
    show "\<forall>p \<in> set ?zero. 0 \<le> snd p" by auto
    show "within 1 (tally_sum ?zero) 0" unfolding z by (rule within_refl) simp
  qed simp_all
  then have w: "within (nat n + 1) (tally_sum tallies) 1"
    unfolding ne by (simp only: add.commute)
  then have lo: "1 \<le> tally_sum tallies * rho ^ (nat n + 1)"
    and hi: "tally_sum tallies \<le> rho ^ (nat n + 1)" by (simp_all add: within_def)
  have "\<bar>tally_sum tallies - 1\<bar> \<le> 1 / 10 ^ 9" if "n \<le> 1000000"
  proof -
    from that assms(2) have "nat n + 1 \<le> 1000001" by simp
    then have b: "rho ^ (nat n + 1) \<le> 1 + 1 / 10 ^ 9" by (rule rho_million)
    have p: "0 < rho ^ (nat n + 1)" using rho_pos by simp
    from hi b have u: "tally_sum tallies \<le> 1 + 1 / 10 ^ 9" by (rule order_trans)
    have "1 \<le> tally_sum tallies * (1 + 1 / 10 ^ 9)"
    proof -
      have "0 \<le> tally_sum tallies" using w by (rule within_nonneg) simp
      then have "tally_sum tallies * rho ^ (nat n + 1) \<le> tally_sum tallies * (1 + 1 / 10 ^ 9)"
        using b by (intro mult_left_mono)
      with lo show ?thesis by (rule order_trans)
    qed
    then have "1 - 1 / 10 ^ 9 \<le> tally_sum tallies" by (simp add: field_simps)
    with u show ?thesis by (simp only: abs_le_iff) linarith
  qed
  with r lo hi show ?thesis by blast
qed

theorem sample_pagerank_sum_rounded_witness:
  "single_page \<noteq> [] \<and> (1 :: int) \<le> 10 \<and> (0 :: rat) < 1 / 2 \<and> (1 / 2 :: rat) < 1 \<and>
   (\<exists>tallies. sample_pagerank always_first single_page (1 / 2) 10 = Inr tallies \<and>
      1 \<le> tally_sum tallies * rho ^ (nat 10 + 1) \<and>
      tally_sum tallies \<le> rho ^ (nat 10 + 1) \<and>
      \<bar>tally_sum tallies - 1\<bar> \<le> 1 / 10 ^ 9)"
proof -
  have h1: "single_page \<noteq> []" by (simp add: single_page_def)
  have h2: "(1 :: int) \<le> 10" by simp
  have h3: "(0 :: rat) < 1 / 2" and h4: "(1 / 2 :: rat) < 1" by simp_all
  from sample_pagerank_sum_rounded[OF h1 h2 h3 h4, of always_first] h1 show ?thesis by simp
qed

end
